theory Spec2Isabelle
  imports Complex_Main
begin

section \<open>The game of Pig (Pig2.py)\<close>

text \<open>
  A shallow embedding of \<^verbatim>\<open>Pig2.py\<close>. The program talks to three things outside
  itself, and each is an explicit argument of the model:
  \<^item> the random module: \<open>rng seed\<close> is the sequence of values that successive calls of
    \<^verbatim>\<open>random.randint(1, 6)\<close> return after \<^verbatim>\<open>random.seed(seed)\<close>; the model is
    given a finite prefix of it, and a run that needs more ends in \<open>StreamEnd\<close>;
  \<^item> standard input: the list of lines that \<^verbatim>\<open>input()\<close> returns one by one; at the end
    of the list \<^verbatim>\<open>input()\<close> raises \<open>EOFError\<close>;
  \<^item> the wall clock: the list of values that successive calls of \<^verbatim>\<open>time.time()\<close>
    return; a run that needs more readings than given ends in \<open>StreamEnd\<close>.
  Of the printed text, the model keeps the final announcement (the \<open>outcome\<close>).
\<close>

subsection \<open>Strings\<close>

text \<open>
  Strings are lists of characters with code points below 256. \<^verbatim>\<open>str.lower\<close> maps the
  upper-case letters among them (A to Z, and the accented capitals 192 to 222 without the
  multiplication sign 215) to the code point 32 higher. \<^verbatim>\<open>str.strip\<close> removes
  leading and trailing white space (code points 9 to 13, 28 to 32, 133 and 160).
\<close>

definition lower_char :: "char \<Rightarrow> char" where
  "lower_char c =
     (let n = (of_char c :: nat)
      in if (65 \<le> n \<and> n \<le> 90) \<or> (192 \<le> n \<and> n \<le> 222 \<and> n \<noteq> 215)
         then char_of (n + 32) else c)"

definition lower :: "string \<Rightarrow> string" where
  "lower s = map lower_char s"

definition isspace :: "char \<Rightarrow> bool" where
  "isspace c =
     (let n = (of_char c :: nat)
      in (9 \<le> n \<and> n \<le> 13) \<or> (28 \<le> n \<and> n \<le> 32) \<or> n = 133 \<or> n = 160)"

definition strip :: "string \<Rightarrow> string" where
  "strip s = rev (dropWhile isspace (rev (dropWhile isspace s)))"

subsection \<open>Errors and streams\<close>

datatype error =
    ValueError    \<comment> \<open>raised by \<^verbatim>\<open>PlayerFactory.create_player\<close>\<close>
  | EOFError      \<comment> \<open>raised by \<^verbatim>\<open>input()\<close> at the end of standard input\<close>
  | IndexError    \<comment> \<open>raised by indexing a list out of range\<close>
  | StreamEnd     \<comment> \<open>not a Python exception: the given prefix of rolls or clock readings is used up\<close>

subsection \<open>Die\<close>

text \<open>
  \<^verbatim>\<open>Die.__init__(seed=0)\<close> seeds the random module; \<^verbatim>\<open>Die.roll\<close> takes the next
  value of \<^verbatim>\<open>random.randint(1, 6)\<close>. The state of the die is the rest of the sequence:
  a roll is the head of the list, and leaves the tail. The state of the random module is
  global in Python; the model keeps it with the die of the one game that a run builds.
\<close>

type_synonym die = "int list"

definition Die_init :: "(int \<Rightarrow> int list) \<Rightarrow> int \<Rightarrow> die" where
  "Die_init rng seed = rng seed"

subsection \<open>Players\<close>

text \<open>
  The class \<^verbatim>\<open>Player\<close> has the two subclasses \<^verbatim>\<open>HumanPlayer\<close> and
  \<^verbatim>\<open>ComputerPlayer\<close>, which differ in \<^verbatim>\<open>decide\<close>; the factory builds no other
  player, so the \<^verbatim>\<open>decide\<close> of the base class, which raises, is never called.
\<close>

datatype player_kind = HumanPlayer | ComputerPlayer

record player =
  name :: string
  score :: int
  kind :: player_kind

definition Player_init :: "player_kind \<Rightarrow> string \<Rightarrow> player" where
  "Player_init k n = \<lparr>name = n, score = 0, kind = k\<rparr>"

definition add_score :: "player \<Rightarrow> int \<Rightarrow> player" where
  "add_score p points = p\<lparr>score := score p + points\<rparr>"

text \<open>The two values that \<^verbatim>\<open>decide\<close> returns: \<^verbatim>\<open>'r'\<close> and \<^verbatim>\<open>'h'\<close>.\<close>

datatype choice = Roll | Hold

text \<open>
  \<^verbatim>\<open>HumanPlayer.decide\<close> reads lines until one is \<^verbatim>\<open>r\<close> or \<^verbatim>\<open>h\<close> after
  \<^verbatim>\<open>strip().lower()\<close>; it returns the choice and the lines left.
\<close>

fun HumanPlayer_decide :: "string list \<Rightarrow> error + (choice \<times> string list)" where
  "HumanPlayer_decide [] = Inl EOFError"
| "HumanPlayer_decide (l # ls) =
     (let c = lower (strip l)
      in if c = ''r'' then Inr (Roll, ls)
         else if c = ''h'' then Inr (Hold, ls)
         else HumanPlayer_decide ls)"

definition ComputerPlayer_decide :: "player \<Rightarrow> int \<Rightarrow> choice" where
  "ComputerPlayer_decide p turn_total =
     (if turn_total \<ge> min 25 (100 - score p) then Hold else Roll)"

definition decide :: "player \<Rightarrow> int \<Rightarrow> string list \<Rightarrow> error + (choice \<times> string list)" where
  "decide p turn_total inputs =
     (case kind p of
        HumanPlayer \<Rightarrow> HumanPlayer_decide inputs
      | ComputerPlayer \<Rightarrow> Inr (ComputerPlayer_decide p turn_total, inputs))"

subsection \<open>PlayerFactory\<close>

definition create_player :: "string \<Rightarrow> string \<Rightarrow> error + player" where
  "create_player player_type n =
     (if lower player_type = ''human'' then Inr (Player_init HumanPlayer n)
      else if lower player_type = ''computer'' then Inr (Player_init ComputerPlayer n)
      else Inl ValueError)"

subsection \<open>PigGame\<close>

record pig_game =
  die :: die
  players :: "player list"
  current_player :: int

definition PigGame_init :: "(int \<Rightarrow> int list) \<Rightarrow> string \<Rightarrow> string \<Rightarrow> error + pig_game" where
  "PigGame_init rng player1_type player2_type =
     (let d = Die_init rng 0
      in case create_player player1_type ''Player 1'' of
           Inl e \<Rightarrow> Inl e
         | Inr p1 \<Rightarrow>
             (case create_player player2_type ''Player 2'' of
                Inl e \<Rightarrow> Inl e
              | Inr p2 \<Rightarrow> Inr \<lparr>die = d, players = [p1, p2], current_player = 0\<rparr>))"

text \<open>
  The constructor once more, statement by statement, with what has been made when it
  returns or fails: line 60 makes the die (and seeds the random module) before line 62
  looks at the first label, and the player of line 62 is made before line 63 looks at the
  second label. The second component is the result of \<open>PigGame_init\<close>.
\<close>

datatype made = Made_die die | Made_player player

definition PigGame_init_trace ::
    "(int \<Rightarrow> int list) \<Rightarrow> string \<Rightarrow> string \<Rightarrow> made list \<times> (error + pig_game)" where
  "PigGame_init_trace rng player1_type player2_type =
     (let d = Die_init rng 0
      in case create_player player1_type ''Player 1'' of
           Inl e \<Rightarrow> ([Made_die d], Inl e)
         | Inr p1 \<Rightarrow>
             (case create_player player2_type ''Player 2'' of
                Inl e \<Rightarrow> ([Made_die d, Made_player p1], Inl e)
              | Inr p2 \<Rightarrow>
                  ([Made_die d, Made_player p1, Made_player p2],
                   Inr \<lparr>die = d, players = [p1, p2], current_player = 0\<rparr>)))"

definition switch_turn :: "pig_game \<Rightarrow> pig_game" where
  "switch_turn g = g\<lparr>current_player := 1 - current_player g\<rparr>"

text \<open>
  Python list indexing: an index from \<open>-n\<close> to \<open>n - 1\<close> names a position of a list of
  length \<open>n\<close>, a negative one counting from the end; any other raises \<open>IndexError\<close>.
\<close>

definition py_index :: "nat \<Rightarrow> int \<Rightarrow> nat option" where
  "py_index n i =
     (if 0 \<le> i \<and> i < int n then Some (nat i)
      else if - int n \<le> i \<and> i < 0 then Some (nat (i + int n))
      else None)"

lemma py_index_two:
  "length ps = 2 \<Longrightarrow> c = 0 \<or> c = 1 \<Longrightarrow> py_index (length ps) c = Some (nat c)"
  by (auto simp: py_index_def)

text \<open>How a turn (the inner loop) was left.\<close>

datatype turn_end =
    Busted     \<comment> \<open>\<^verbatim>\<open>break\<close> after a roll of 1\<close>
  | Held       \<comment> \<open>\<^verbatim>\<open>break\<close> after \<^verbatim>\<open>add_score\<close>\<close>
  | TimedOut   \<comment> \<open>\<^verbatim>\<open>return\<close> from the timed loop\<close>

text \<open>
  The inner loop of \<^verbatim>\<open>PigGame.play\<close> (lines 81 to 99), from the current
  \<open>turn_total\<close>. It returns how the turn ended, the player, the final \<open>turn_total\<close>,
  the die and the input lines left.
\<close>

fun turn :: "player \<Rightarrow> int \<Rightarrow> die \<Rightarrow> string list
    \<Rightarrow> error + (turn_end \<times> player \<times> int \<times> die \<times> string list)" where
  "turn p turn_total d inputs =
     (case decide p turn_total inputs of
        Inl e \<Rightarrow> Inl e
      | Inr (Roll, inputs') \<Rightarrow>
          (case d of
             [] \<Rightarrow> Inl StreamEnd
           | r # rs \<Rightarrow>
               if r = 1 then Inr (Busted, p, 0, rs, inputs')
               else turn p (turn_total + r) rs inputs')
      | Inr (Hold, inputs') \<Rightarrow> Inr (Held, add_score p turn_total, turn_total, d, inputs'))"

text \<open>A turn uses up rolls and input lines, and never gives any back.\<close>

lemma HumanPlayer_decide_length:
  "HumanPlayer_decide inputs = Inr (c, inputs') \<Longrightarrow> length inputs' < length inputs"
  by (induction inputs) (auto simp: Let_def split: if_splits)

lemma decide_length:
  "decide p tt inputs = Inr (c, inputs') \<Longrightarrow> length inputs' \<le> length inputs"
  by (auto simp: decide_def split: player_kind.splits dest: HumanPlayer_decide_length)

lemma turn_length:
  "turn p tt d inputs = Inr (e, p', tt', d', inputs') \<Longrightarrow>
     length d' \<le> length d \<and> length inputs' \<le> length inputs"
proof (induction p tt d inputs rule: turn.induct)
  case (1 p tt d inputs)
  show ?case
  proof (cases "decide p tt inputs")
    case (Inl a) with "1.prems" show ?thesis by simp
  next
    case (Inr ci)
    obtain c i where ci: "ci = (c, i)" by (cases ci)
    note dl = decide_length[OF Inr[unfolded ci]]
    show ?thesis
    proof (cases c)
      case Roll
      show ?thesis
      proof (cases d)
        case Nil with "1.prems" Inr ci Roll show ?thesis by simp
      next
        case (Cons r rs)
        show ?thesis
        proof (cases "r = 1")
          case True with "1.prems" Inr ci Roll Cons dl show ?thesis by auto
        next
          case False
          with "1.prems" Inr ci Roll Cons have "turn p (tt + r) rs i = Inr (e, p', tt', d', inputs')" by simp
          from "1.IH"[OF Inr ci[symmetric] Roll Cons False this] dl Cons show ?thesis by simp
        qed
      qed
    next
      case Hold with "1.prems" Inr ci dl show ?thesis by auto
    qed
  qed
qed

lemma turn_progress:
  assumes t: "turn p 0 d inputs = Inr (e, p', tt', d', inputs')" and n: "\<not> 100 \<le> score p'"
  shows "length d' + length inputs' < length d + length inputs"
proof (cases "decide p 0 inputs")
  case (Inl a) with t show ?thesis by simp
next
  case (Inr ci)
  obtain c i where ci: "ci = (c, i)" by (cases ci)
  note dl = decide_length[OF Inr[unfolded ci]]
  show ?thesis
  proof (cases c)
    case Roll
    show ?thesis
    proof (cases d)
      case Nil with t Inr ci Roll show ?thesis by simp
    next
      case (Cons r rs)
      show ?thesis
      proof (cases "r = 1")
        case True with t Inr ci Roll Cons dl show ?thesis by auto
      next
        case False
        with t Inr ci Roll Cons have "turn p (0 + r) rs i = Inr (e, p', tt', d', inputs')" by simp
        from turn_length[OF this] dl Cons show ?thesis by simp
      qed
    qed
  next
    case Hold
    with t Inr ci have p': "p' = add_score p 0" "d' = d" "inputs' = i" by auto
    show ?thesis
    proof (cases "kind p")
      case HumanPlayer
      with Inr ci have "HumanPlayer_decide inputs = Inr (c, i)" by (simp add: decide_def)
      from HumanPlayer_decide_length[OF this] p' show ?thesis by simp
    next
      case ComputerPlayer
      with Inr ci Hold have "ComputerPlayer_decide p 0 = Hold" by (simp add: decide_def)
      hence "100 \<le> score p" by (simp add: ComputerPlayer_decide_def split: if_splits)
      with n p' show ?thesis by (simp add: add_score_def)
    qed
  qed
qed

lemma turn_end_cases:
  "turn p tt d inputs = Inr (e, p', tt', d', inputs') \<Longrightarrow>
     (e = Held \<and> p' = add_score p tt') \<or> (e = Busted \<and> p' = p \<and> tt' = 0)"
proof (induction p tt d inputs rule: turn.induct)
  case (1 p tt d inputs)
  show ?case
  proof (cases "decide p tt inputs")
    case (Inl a) with "1.prems" show ?thesis by simp
  next
    case (Inr ci)
    obtain c i where ci: "ci = (c, i)" by (cases ci)
    show ?thesis
    proof (cases c)
      case Roll
      show ?thesis
      proof (cases d)
        case Nil with "1.prems" Inr ci Roll show ?thesis by simp
      next
        case (Cons r rs)
        show ?thesis
        proof (cases "r = 1")
          case True with "1.prems" Inr ci Roll Cons show ?thesis by auto
        next
          case False
          with "1.prems" Inr ci Roll Cons
          have "turn p (tt + r) rs i = Inr (e, p', tt', d', inputs')" by simp
          from "1.IH"[OF Inr ci[symmetric] Roll Cons False this] show ?thesis .
        qed
      qed
    next
      case Hold with "1.prems" Inr ci show ?thesis by auto
    qed
  qed
qed

declare turn.simps [simp del]

lemma turn_roll:
  "decide p tt inputs = Inr (Roll, inputs') \<Longrightarrow>
     turn p tt (r # rs) inputs =
       (if r = 1 then Inr (Busted, p, 0, rs, inputs') else turn p (tt + r) rs inputs')"
  by (subst turn.simps) simp

lemma turn_hold:
  "decide p tt inputs = Inr (Hold, inputs') \<Longrightarrow>
     turn p tt d inputs = Inr (Held, add_score p tt, tt, d, inputs')"
  by (subst turn.simps) simp

text \<open>The announcement that ends a game.\<close>

datatype outcome =
    Wins string int         \<comment> \<open>lines 102 and 155: a player has reached 100\<close>
  | WinsOnTime string int   \<comment> \<open>lines 164 and 166: the higher score when time is up\<close>
  | Tie                     \<comment> \<open>line 168\<close>

text \<open>
  \<^verbatim>\<open>PigGame.play\<close>, the outer loop. Beside the result, the model returns the list of
  the passes through the win check (line 101): how the turn was left and the game as it
  is there.
\<close>

function play :: "pig_game \<Rightarrow> string list
    \<Rightarrow> (turn_end \<times> pig_game) list \<times> (error + (outcome \<times> pig_game \<times> string list))" where
  "play g inputs =
     (case py_index (length (players g)) (current_player g) of
        None \<Rightarrow> ([], Inl IndexError)
      | Some k \<Rightarrow>
          (case turn (players g ! k) 0 (die g) inputs of
             Inl e \<Rightarrow> ([], Inl e)
           | Inr (e, p, turn_total, d, inputs') \<Rightarrow>
               (let g' = g\<lparr>die := d, players := (players g)[k := p]\<rparr>
                in if score p \<ge> 100
                   then ([(e, g')], Inr (Wins (name p) (score p), g', inputs'))
                   else (case play (switch_turn g') inputs' of
                           (h, res) \<Rightarrow> ((e, g') # h, res)))))"
  by pat_completeness auto

termination play
proof (relation "measure (\<lambda>(g, inputs). length (die g) + length inputs)", goal_cases)
  case 1 show ?case by simp
next
  case (2 g inputs k x e rest p rest2 tt rest3 d inputs' g')
  then show ?case
    using turn_progress by (auto simp: switch_turn_def)
qed

declare play.simps [simp del]

subsection \<open>TimedGameProxy\<close>

record timed_game =
  game :: pig_game
  start_time :: real

text \<open>\<^verbatim>\<open>TimedGameProxy.__init__\<close> builds the game, then reads the clock once.\<close>

definition TimedGameProxy_init ::
    "(int \<Rightarrow> int list) \<Rightarrow> string \<Rightarrow> string \<Rightarrow> real list \<Rightarrow> error + (timed_game \<times> real list)" where
  "TimedGameProxy_init rng player1_type player2_type clock =
     (case PigGame_init rng player1_type player2_type of
        Inl e \<Rightarrow> Inl e
      | Inr g \<Rightarrow>
          (case clock of
             [] \<Rightarrow> Inl StreamEnd
           | t # ts \<Rightarrow> Inr (\<lparr>game = g, start_time = t\<rparr>, ts)))"

text \<open>
  \<^verbatim>\<open>determine_winner\<close> unpacks the list of players into two names, which raises
  \<open>ValueError\<close> when the list has another length.
\<close>

definition determine_winner :: "pig_game \<Rightarrow> error + outcome" where
  "determine_winner g =
     (case players g of
        [p1, p2] \<Rightarrow>
          Inr (if score p1 > score p2 then WinsOnTime (name p1) (score p1)
               else if score p2 > score p1 then WinsOnTime (name p2) (score p2)
               else Tie)
      | _ \<Rightarrow> Inl ValueError)"

text \<open>
  The inner loop of \<^verbatim>\<open>TimedGameProxy.play\<close> (lines 129 to 152): the clock is read
  before each decision.
\<close>

fun timed_turn :: "real \<Rightarrow> player \<Rightarrow> int \<Rightarrow> die \<Rightarrow> string list \<Rightarrow> real list
    \<Rightarrow> error + (turn_end \<times> player \<times> int \<times> die \<times> string list \<times> real list)" where
  "timed_turn start p turn_total d inputs [] = Inl StreamEnd"
| "timed_turn start p turn_total d inputs (t # ts) =
     (if t - start \<ge> 60 then Inr (TimedOut, p, turn_total, d, inputs, ts)
      else
        (case decide p turn_total inputs of
           Inl e \<Rightarrow> Inl e
         | Inr (Roll, inputs') \<Rightarrow>
             (case d of
                [] \<Rightarrow> Inl StreamEnd
              | r # rs \<Rightarrow>
                  if r = 1 then Inr (Busted, p, 0, rs, inputs', ts)
                  else timed_turn start p (turn_total + r) rs inputs' ts)
         | Inr (Hold, inputs') \<Rightarrow>
             Inr (Held, add_score p turn_total, turn_total, d, inputs', ts)))"

lemma timed_turn_length:
  "timed_turn start p tt d inputs clock = Inr (e, p', tt', d', inputs', clock') \<Longrightarrow>
     length clock' < length clock"
proof (induction start p tt d inputs clock rule: timed_turn.induct)
  case (1 start p tt d inputs)
  then show ?case by simp
next
  case (2 start p tt d inputs t ts)
  show ?case
  proof (cases "t - start \<ge> 60")
    case True with "2.prems" show ?thesis by simp
  next
    case False
    show ?thesis
    proof (cases "decide p tt inputs")
      case (Inl a) with "2.prems" False show ?thesis by simp
    next
      case (Inr ci)
      obtain c i where ci: "ci = (c, i)" by (cases ci)
      show ?thesis
      proof (cases c)
        case Roll
        show ?thesis
        proof (cases d)
          case Nil with "2.prems" False Inr ci Roll show ?thesis by simp
        next
          case (Cons r rs)
          show ?thesis
          proof (cases "r = 1")
            case True with "2.prems" False Inr ci Roll Cons show ?thesis by auto
          next
            case r: False
            with "2.prems" False Inr ci Roll Cons
            have "timed_turn start p (tt + r) rs i ts = Inr (e, p', tt', d', inputs', clock')"
              by simp
            from "2.IH"[OF False Inr ci[symmetric] Roll Cons r this] show ?thesis by simp
          qed
        qed
      next
        case Hold with "2.prems" False Inr ci show ?thesis by auto
      qed
    qed
  qed
qed

declare timed_turn.simps [simp del]

text \<open>
  \<^verbatim>\<open>TimedGameProxy.play\<close>, the outer loop: the clock is read at the start of each
  turn. When the time is up inside a turn the method returns from there, and the win
  check is not reached.
\<close>

function TimedGameProxy_play :: "timed_game \<Rightarrow> string list \<Rightarrow> real list
    \<Rightarrow> (turn_end \<times> pig_game) list
       \<times> (error + (outcome \<times> timed_game \<times> string list \<times> real list))" where
  "TimedGameProxy_play tg inputs clock =
     (case clock of
        [] \<Rightarrow> ([], Inl StreamEnd)
      | t # ts \<Rightarrow>
          if t - start_time tg \<ge> 60
          then ([], case determine_winner (game tg) of
                      Inl e \<Rightarrow> Inl e
                    | Inr w \<Rightarrow> Inr (w, tg, inputs, ts))
          else
            (let g = game tg
             in case py_index (length (players g)) (current_player g) of
                  None \<Rightarrow> ([], Inl IndexError)
                | Some k \<Rightarrow>
                    (case timed_turn (start_time tg) (players g ! k) 0 (die g) inputs ts of
                       Inl e \<Rightarrow> ([], Inl e)
                     | Inr (e, p, turn_total, d, inputs', ts') \<Rightarrow>
                         (let g' = g\<lparr>die := d, players := (players g)[k := p]\<rparr>
                          in if e = TimedOut
                             then ([], case determine_winner g' of
                                         Inl e \<Rightarrow> Inl e
                                       | Inr w \<Rightarrow> Inr (w, tg\<lparr>game := g'\<rparr>, inputs', ts'))
                             else if score p \<ge> 100
                             then ([(e, g')],
                                   Inr (Wins (name p) (score p), tg\<lparr>game := g'\<rparr>, inputs', ts'))
                             else (case TimedGameProxy_play
                                          (tg\<lparr>game := switch_turn g'\<rparr>) inputs' ts' of
                                     (h, res) \<Rightarrow> ((e, g') # h, res))))))"
  by pat_completeness auto

termination TimedGameProxy_play
proof (relation "measure (\<lambda>(tg, inputs, clock). length clock)", goal_cases)
  case 1 show ?case by simp
next
  case 2
  then show ?case
    using timed_turn_length by fastforce
qed

declare TimedGameProxy_play.simps [simp del]

subsection \<open>main\<close>

datatype game_object = PigGame pig_game | TimedGameProxy timed_game

text \<open>Lines 172 to 180: the three questions, and the construction of the game.\<close>

definition main_setup :: "(int \<Rightarrow> int list) \<Rightarrow> string list \<Rightarrow> real list
    \<Rightarrow> error + (game_object \<times> string list \<times> real list)" where
  "main_setup rng inputs clock =
     (case inputs of
        l1 # l2 # l3 # rest \<Rightarrow>
          (let player1_type = lower (strip l1);
               player2_type = lower (strip l2);
               timed_mode = lower (strip l3)
           in if timed_mode = ''yes''
              then (case TimedGameProxy_init rng player1_type player2_type clock of
                      Inl e \<Rightarrow> Inl e
                    | Inr (tg, clock') \<Rightarrow> Inr (TimedGameProxy tg, rest, clock'))
              else (case PigGame_init rng player1_type player2_type of
                      Inl e \<Rightarrow> Inl e
                    | Inr g \<Rightarrow> Inr (PigGame g, rest, clock)))
      | _ \<Rightarrow> Inl EOFError)"

text \<open>Line 182: \<^verbatim>\<open>game.play()\<close>, on the object that was built.\<close>

definition main :: "(int \<Rightarrow> int list) \<Rightarrow> string list \<Rightarrow> real list
    \<Rightarrow> (turn_end \<times> pig_game) list \<times> (error + outcome)" where
  "main rng inputs clock =
     (case main_setup rng inputs clock of
        Inl e \<Rightarrow> ([], Inl e)
      | Inr (PigGame g, inputs', clock') \<Rightarrow>
          (case play g inputs' of
             (h, Inl e) \<Rightarrow> (h, Inl e)
           | (h, Inr (w, _)) \<Rightarrow> (h, Inr w))
      | Inr (TimedGameProxy tg, inputs', clock') \<Rightarrow>
          (case TimedGameProxy_play tg inputs' clock' of
             (h, Inl e) \<Rightarrow> (h, Inl e)
           | (h, Inr (w, _)) \<Rightarrow> (h, Inr w)))"

section \<open>Notions used in the properties\<close>

text \<open>
  The games that the constructor builds and the loop keeps: two players, and a current
  player that is 0 or 1.
\<close>

definition wf_game :: "pig_game \<Rightarrow> bool" where
  "wf_game g = (length (players g) = 2 \<and> (current_player g = 0 \<or> current_player g = 1))"

text \<open>The game at the win check: the die as the turn left it, the current player updated.\<close>

definition after_turn :: "pig_game \<Rightarrow> player \<Rightarrow> die \<Rightarrow> pig_game" where
  "after_turn g p d = g\<lparr>die := d, players := (players g)[nat (current_player g) := p]\<rparr>"

text \<open>Some player has reached 100.\<close>

definition won :: "pig_game \<Rightarrow> bool" where
  "won g = (\<exists>p \<in> set (players g). score p \<ge> 100)"


text \<open>
  One win check \<open>(e, s)\<close> after the list of players \<open>ps\<close>: no score is lower than
  before; when the turn ended by a hold, the list is the old one with \<open>add_score\<close> of a
  difference applied to the current player; otherwise the list is the old one.
\<close>

definition turn_step :: "player list \<Rightarrow> turn_end \<times> pig_game \<Rightarrow> bool" where
  "turn_step ps x =
     (case x of (e, s) \<Rightarrow>
        (let ps' = players s; k = nat (current_player s)
         in list_all2 (\<lambda>p p'. score p \<le> score p') ps ps'
            \<and> (if e = Held
               then k < length ps
                    \<and> ps' = ps[k := add_score (ps ! k) (score (ps' ! k) - score (ps ! k))]
               else ps' = ps)))"

text \<open>Every win check of a list is such a step from the one before, starting from \<open>ps\<close>.\<close>

fun score_steps :: "player list \<Rightarrow> (turn_end \<times> pig_game) list \<Rightarrow> bool" where
  "score_steps ps [] = True"
| "score_steps ps (x # h) = (turn_step ps x \<and> score_steps (players (snd x)) h)"

text \<open>No score is negative.\<close>

definition nonneg_scores :: "player list \<Rightarrow> bool" where
  "nonneg_scores ps = list_all (\<lambda>p. 0 \<le> score p) ps"

text \<open>
  \<open>same_letter c l\<close>: the character \<open>c\<close> is the lower-case letter \<open>l\<close> (a to z) or
  its capital, which lies 32 code points below. \<open>casing_of w t\<close>: the string \<open>t\<close> is the
  lower-case word \<open>w\<close> in some casing.
\<close>

definition same_letter :: "char \<Rightarrow> char \<Rightarrow> bool" where
  "same_letter c l = (c = l \<or> (of_char c :: nat) + 32 = of_char l)"

definition casing_of :: "string \<Rightarrow> string \<Rightarrow> bool" where
  "casing_of w t = list_all2 same_letter t w"

text \<open>A word of the letters a to z.\<close>

definition lower_word :: "string \<Rightarrow> bool" where
  "lower_word w = list_all (\<lambda>l. 97 \<le> (of_char l :: nat) \<and> (of_char l :: nat) \<le> 122) w"

text \<open>The labels that name a kind of player.\<close>

definition valid_label :: "string \<Rightarrow> bool" where
  "valid_label t = (casing_of ''human'' t \<or> casing_of ''computer'' t)"

text \<open>The ways to split a list in two.\<close>

fun splits :: "'a list \<Rightarrow> ('a list \<times> 'a list) list" where
  "splits [] = [([], [])]"
| "splits (x # xs) = ([], x # xs) # map (\<lambda>(a, b). (x # a, b)) (splits xs)"

text \<open>
  \<open>answer_is w a\<close>: the answer \<open>a\<close> is the lower-case word \<open>w\<close> in some casing, between
  white space: the answer splits into white space, a casing of \<open>w\<close>, and white space.
\<close>

definition answer_is :: "string \<Rightarrow> string \<Rightarrow> bool" where
  "answer_is w a =
     list_ex (\<lambda>(ws1, r). list_all isspace ws1
                \<and> list_ex (\<lambda>(core, ws2). casing_of w core \<and> list_all isspace ws2) (splits r))
       (splits a)"

text \<open>Both players are computer players.\<close>

definition all_computer :: "pig_game \<Rightarrow> bool" where
  "all_computer g = list_all (\<lambda>p. kind p = ComputerPlayer) (players g)"

text \<open>The result of a game without the input lines left over.\<close>

definition drop_inputs :: "error + (outcome \<times> pig_game \<times> string list) \<Rightarrow> error + (outcome \<times> pig_game)" where
  "drop_inputs res = (case res of Inl e \<Rightarrow> Inl e | Inr (w, g, _) \<Rightarrow> Inr (w, g))"

text \<open>An example of a random module: 32 rolls of 6, whatever the seed.\<close>

definition sixes :: "int \<Rightarrow> int list" where
  "sixes seed = replicate 32 6"

text \<open>Another example of a random module: the rolls 3, 4, 1, 6, 2, whatever the seed.\<close>

definition example_rolls :: "int \<Rightarrow> int list" where
  "example_rolls seed = [3, 4, 1, 6, 2]"

section \<open>Lemmas\<close>

lemma wf_game_index:
  "wf_game g \<Longrightarrow> py_index (length (players g)) (current_player g) = Some (nat (current_player g))"
  unfolding wf_game_def by (intro py_index_two) auto

lemma wf_game_after_turn: "wf_game g \<Longrightarrow> wf_game (switch_turn (after_turn g p d))"
  by (auto simp: wf_game_def switch_turn_def after_turn_def)

lemma play_unfold:
  assumes "wf_game g"
  shows "play g inputs =
     (case turn (players g ! nat (current_player g)) 0 (die g) inputs of
        Inl e \<Rightarrow> ([], Inl e)
      | Inr (e, p, turn_total, d, inputs') \<Rightarrow>
          if score p \<ge> 100
          then ([(e, after_turn g p d)], Inr (Wins (name p) (score p), after_turn g p d, inputs'))
          else (case play (switch_turn (after_turn g p d)) inputs' of
                  (h, res) \<Rightarrow> ((e, after_turn g p d) # h, res)))"
  by (subst play.simps) (simp add: wf_game_index[OF assms] after_turn_def Let_def split: sum.splits)

lemma play_induct_wf [consumes 1, case_names turn]:
  assumes wf: "wf_game g"
    and step: "\<And>g inputs. wf_game g \<Longrightarrow>
      (\<And>e p tt d i. turn (players g ! nat (current_player g)) 0 (die g) inputs = Inr (e, p, tt, d, i)
          \<Longrightarrow> \<not> 100 \<le> score p \<Longrightarrow> P (switch_turn (after_turn g p d)) i) \<Longrightarrow> P g inputs"
  shows "P g inputs"
  using wf
proof (induction g inputs rule: play.induct)
  case (1 g inputs)
  show ?case
  proof (rule step[OF "1.prems"])
    fix e p tt d i
    assume t: "turn (players g ! nat (current_player g)) 0 (die g) inputs = Inr (e, p, tt, d, i)"
      and n: "\<not> 100 \<le> score p"
    have "P (switch_turn (g\<lparr>die := d, players := (players g)[nat (current_player g) := p]\<rparr>)) i"
      by (rule "1.IH"[OF wf_game_index[OF "1.prems"] t refl refl refl refl refl n])
         (use wf_game_after_turn[OF "1.prems"] in \<open>simp add: after_turn_def\<close>)
    then show "P (switch_turn (after_turn g p d)) i" by (simp add: after_turn_def)
  qed
qed


lemma won_switch_turn [simp]: "won (switch_turn g) = won g"
  by (simp add: won_def switch_turn_def)


lemma turn_rolls:
  "turn p tt d inputs = Inr (e, p', tt', d', inputs') \<Longrightarrow>
     \<exists>used. d = used @ d'
       \<and> (e = Held \<longrightarrow> 1 \<notin> set used \<and> tt' = tt + sum_list used)
       \<and> (e = Busted \<longrightarrow> (\<exists>us. used = us @ [1] \<and> 1 \<notin> set us))"
proof (induction p tt d inputs rule: turn.induct)
  case (1 p tt d inputs)
  show ?case
  proof (cases "decide p tt inputs")
    case (Inl a) with "1.prems" show ?thesis by (simp add: turn.simps)
  next
    case (Inr ci)
    obtain c i where ci: "ci = (c, i)" by (cases ci)
    show ?thesis
    proof (cases c)
      case Roll
      show ?thesis
      proof (cases d)
        case Nil with "1.prems" Inr ci Roll show ?thesis by (simp add: turn.simps)
      next
        case (Cons r rs)
        show ?thesis
        proof (cases "r = 1")
          case True
          with "1.prems" Inr ci Roll Cons have "e = Busted" "d' = rs"
            by (simp_all add: turn_roll)
          with Cons True have "d = [1] @ d' \<and> (e = Held \<longrightarrow> 1 \<notin> set [1::int] \<and> tt' = tt + sum_list [1])
             \<and> (e = Busted \<longrightarrow> (\<exists>us. [1::int] = us @ [1] \<and> 1 \<notin> set us))"
            by simp
          then show ?thesis by blast
        next
          case False
          with "1.prems" Inr ci Roll Cons
          have "turn p (tt + r) rs i = Inr (e, p', tt', d', inputs')" by (simp add: turn_roll)
          from "1.IH"[OF Inr ci[symmetric] Roll Cons False this]
          obtain used where u: "rs = used @ d'"
            "e = Held \<longrightarrow> 1 \<notin> set used \<and> tt' = tt + r + sum_list used"
            "e = Busted \<longrightarrow> (\<exists>us. used = us @ [1] \<and> 1 \<notin> set us)"
            by auto
          have "d = (r # used) @ d'" using Cons u(1) by simp
          moreover have "e = Held \<longrightarrow> 1 \<notin> set (r # used) \<and> tt' = tt + sum_list (r # used)"
            using u(2) False by auto
          moreover have "e = Busted \<longrightarrow> (\<exists>us. r # used = us @ [1] \<and> 1 \<notin> set us)"
          proof
            assume "e = Busted"
            with u(3) obtain us where "used = us @ [1]" "1 \<notin> set us" by auto
            with False have "r # used = (r # us) @ [1] \<and> 1 \<notin> set (r # us)" by auto
            then show "\<exists>us. r # used = us @ [1] \<and> 1 \<notin> set us" by blast
          qed
          ultimately show ?thesis by blast
        qed
      qed
    next
      case Hold
      with "1.prems" Inr ci have "e = Held" "d' = d" "tt' = tt" by (simp_all add: turn_hold)
      then have "d = [] @ d' \<and> (e = Held \<longrightarrow> 1 \<notin> set ([]::int list) \<and> tt' = tt + sum_list [])
         \<and> (e = Busted \<longrightarrow> (\<exists>us. ([]::int list) = us @ [1] \<and> 1 \<notin> set us))" by simp
      then show ?thesis by blast
    qed
  qed
qed

lemma turn_total_nonneg:
  assumes "turn p tt d inputs = Inr (e, p', tt', d', inputs')" "0 \<le> tt" "set d \<subseteq> {1..6}"
  shows "0 \<le> tt' \<and> set d' \<subseteq> {1..6}"
proof -
  from turn_rolls[OF assms(1)] obtain used where u: "d = used @ d'"
    "e = Held \<longrightarrow> tt' = tt + sum_list used" by blast
  from u(1) assms(3) have "\<forall>r \<in> set used. 0 \<le> r" and d': "set d' \<subseteq> {1..6}" by auto
  then have "0 \<le> sum_list used" by (simp add: sum_list_nonneg)
  moreover from turn_end_cases[OF assms(1)] have "e = Held \<or> tt' = 0" by auto
  ultimately show ?thesis using u(2) assms(2) d' by auto
qed

lemma create_player_score:
  "create_player t n = Inr p \<Longrightarrow> score p = 0 \<and> name p = n"
  by (auto simp: create_player_def Player_init_def split: if_splits)

lemma PigGame_init_fields:
  assumes "PigGame_init rng t1 t2 = Inr g"
  shows "\<exists>p1 p2. create_player t1 ''Player 1'' = Inr p1 \<and> create_player t2 ''Player 2'' = Inr p2
           \<and> g = \<lparr>die = rng 0, players = [p1, p2], current_player = 0\<rparr>"
  using assms by (auto simp: PigGame_init_def Die_init_def Let_def split: sum.splits)

lemma PigGame_init_wf:
  assumes "PigGame_init rng t1 t2 = Inr g"
  shows "wf_game g \<and> \<not> won g \<and> list_all (\<lambda>p. score p = 0) (players g)"
proof -
  from PigGame_init_fields[OF assms] obtain p1 p2 where
    "create_player t1 ''Player 1'' = Inr p1" "create_player t2 ''Player 2'' = Inr p2"
    "g = \<lparr>die = rng 0, players = [p1, p2], current_player = 0\<rparr>" by blast
  then show ?thesis
    by (auto simp: wf_game_def won_def dest: create_player_score)
qed

lemma timed_turn_cases [consumes 1, case_names timeout bust roll hold]:
  assumes "timed_turn st p tt d inputs (t # ts) = Inr R"
  obtains "60 \<le> t - st" "R = (TimedOut, p, tt, d, inputs, ts)"
  | i rs where "\<not> 60 \<le> t - st" "decide p tt inputs = Inr (Roll, i)" "d = 1 # rs"
      "R = (Busted, p, 0, rs, i, ts)"
  | i r rs where "\<not> 60 \<le> t - st" "decide p tt inputs = Inr (Roll, i)" "d = r # rs" "r \<noteq> 1"
      "timed_turn st p (tt + r) rs i ts = Inr R"
  | i where "\<not> 60 \<le> t - st" "decide p tt inputs = Inr (Hold, i)"
      "R = (Held, add_score p tt, tt, d, i, ts)"
proof (cases "60 \<le> t - st")
  case True
  with assms have "R = (TimedOut, p, tt, d, inputs, ts)" by (simp add: timed_turn.simps)
  with True that(1) show ?thesis by blast
next
  case False
  show ?thesis
  proof (cases "decide p tt inputs")
    case (Inl a) with assms False show ?thesis by (simp add: timed_turn.simps)
  next
    case (Inr ci)
    obtain c i where ci: "ci = (c, i)" by (cases ci)
    show ?thesis
    proof (cases c)
      case Roll
      show ?thesis
      proof (cases d)
        case Nil with assms False Inr ci Roll show ?thesis by (simp add: timed_turn.simps)
      next
        case (Cons r rs)
        show ?thesis
        proof (cases "r = 1")
          case True
          with assms False Inr ci Roll Cons have "R = (Busted, p, 0, rs, i, ts)"
            by (simp add: timed_turn.simps)
          with that(2) False Inr ci Roll Cons True show ?thesis by blast
        next
          case r: False
          with assms False Inr ci Roll Cons
          have "timed_turn st p (tt + r) rs i ts = Inr R" by (simp add: timed_turn.simps)
          with that(3) False Inr ci Roll Cons r show ?thesis by blast
        qed
      qed
    next
      case Hold
      with assms False Inr ci have "R = (Held, add_score p tt, tt, d, i, ts)"
        by (simp add: timed_turn.simps)
      with that(4) False Inr ci Hold show ?thesis by blast
    qed
  qed
qed

lemma timed_turn_end_cases:
  "timed_turn st p tt d inputs clock = Inr (e, p', tt', d', inputs', clock') \<Longrightarrow>
     (e = Held \<and> p' = add_score p tt') \<or> (e = Busted \<and> p' = p \<and> tt' = 0)
     \<or> (e = TimedOut \<and> p' = p)"
proof (induction clock arbitrary: tt d inputs)
  case Nil
  then show ?case by (simp add: timed_turn.simps)
next
  case (Cons t ts)
  from Cons.prems show ?case
  proof (cases rule: timed_turn_cases)
    case (roll i r rs)
    from Cons.IH[OF roll(5)] show ?thesis .
  qed auto
qed

lemma timed_turn_rolls:
  "timed_turn st p tt d inputs clock = Inr (e, p', tt', d', inputs', clock') \<Longrightarrow>
     \<exists>used. d = used @ d' \<and> (e \<noteq> Busted \<longrightarrow> 1 \<notin> set used \<and> tt' = tt + sum_list used)"
proof (induction clock arbitrary: tt d inputs)
  case Nil
  then show ?case by (simp add: timed_turn.simps)
next
  case (Cons t ts)
  from Cons.prems show ?case
  proof (cases rule: timed_turn_cases)
    case timeout
    then have "d = [] @ d' \<and> (e \<noteq> Busted \<longrightarrow> 1 \<notin> set ([]::int list) \<and> tt' = tt + sum_list [])"
      by simp
    then show ?thesis by blast
  next
    case (bust i rs)
    then have "d = [1] @ d' \<and> (e \<noteq> Busted \<longrightarrow> 1 \<notin> set [1::int] \<and> tt' = tt + sum_list [1])"
      by simp
    then show ?thesis by blast
  next
    case (roll i r rs)
    from Cons.IH[OF roll(5)] obtain used where
      u: "rs = used @ d'" "e \<noteq> Busted \<longrightarrow> 1 \<notin> set used \<and> tt' = tt + r + sum_list used"
      by blast
    with roll(3,4) have "d = (r # used) @ d'
        \<and> (e \<noteq> Busted \<longrightarrow> 1 \<notin> set (r # used) \<and> tt' = tt + sum_list (r # used))"
      by auto
    then show ?thesis by blast
  next
    case (hold i)
    then have "d = [] @ d' \<and> (e \<noteq> Busted \<longrightarrow> 1 \<notin> set ([]::int list) \<and> tt' = tt + sum_list [])"
      by simp
    then show ?thesis by blast
  qed
qed

lemma timed_turn_clock:
  "timed_turn st p tt d inputs clock = Inr (e, p', tt', d', inputs', clock') \<Longrightarrow>
     \<exists>rd. clock = rd @ clock' \<and> rd \<noteq> [] \<and> (\<forall>t \<in> set (butlast rd). t - st < 60)
       \<and> (e = TimedOut \<longleftrightarrow> 60 \<le> last rd - st)"
proof (induction clock arbitrary: tt d inputs)
  case Nil
  then show ?case by (simp add: timed_turn.simps)
next
  case (Cons t ts)
  have one: "e' = e \<Longrightarrow> clock' = ts \<Longrightarrow> (e = TimedOut \<longleftrightarrow> 60 \<le> t - st) \<Longrightarrow> ?case" for e'
  proof -
    assume "clock' = ts" "e = TimedOut \<longleftrightarrow> 60 \<le> t - st"
    then have "t # ts = [t] @ clock' \<and> [t] \<noteq> [] \<and> (\<forall>t \<in> set (butlast [t]). t - st < 60)
       \<and> (e = TimedOut \<longleftrightarrow> 60 \<le> last [t] - st)" by simp
    then show ?case by blast
  qed
  from Cons.prems show ?case
  proof (cases rule: timed_turn_cases)
    case timeout
    then show ?thesis by (intro one) simp_all
  next
    case (bust i rs)
    then show ?thesis by (intro one) simp_all
  next
    case (roll i r rs)
    from Cons.IH[OF roll(5)] obtain rd where
      u: "ts = rd @ clock'" "rd \<noteq> []" "\<forall>t \<in> set (butlast rd). t - st < 60"
         "e = TimedOut \<longleftrightarrow> 60 \<le> last rd - st"
      by blast
    with roll(1) have "t # ts = (t # rd) @ clock' \<and> t # rd \<noteq> []
       \<and> (\<forall>t \<in> set (butlast (t # rd)). t - st < 60)
       \<and> (e = TimedOut \<longleftrightarrow> 60 \<le> last (t # rd) - st)"
      by auto
    then show ?thesis by blast
  next
    case (hold i)
    then show ?thesis by (intro one) simp_all
  qed
qed

lemma timed_play_unfold:
  assumes "wf_game (game tg)"
  shows "TimedGameProxy_play tg inputs (t # ts) =
     (if 60 \<le> t - start_time tg
      then ([], case determine_winner (game tg) of
                  Inl e \<Rightarrow> Inl e
                | Inr w \<Rightarrow> Inr (w, tg, inputs, ts))
      else
        (case timed_turn (start_time tg) (players (game tg) ! nat (current_player (game tg))) 0
                (die (game tg)) inputs ts of
           Inl e \<Rightarrow> ([], Inl e)
         | Inr (e, p, turn_total, d, inputs', ts') \<Rightarrow>
             if e = TimedOut
             then ([], case determine_winner (after_turn (game tg) p d) of
                         Inl e \<Rightarrow> Inl e
                       | Inr w \<Rightarrow> Inr (w, tg\<lparr>game := after_turn (game tg) p d\<rparr>, inputs', ts'))
             else if 100 \<le> score p
             then ([(e, after_turn (game tg) p d)],
                   Inr (Wins (name p) (score p), tg\<lparr>game := after_turn (game tg) p d\<rparr>,
                        inputs', ts'))
             else (case TimedGameProxy_play
                          (tg\<lparr>game := switch_turn (after_turn (game tg) p d)\<rparr>) inputs' ts' of
                     (h, res) \<Rightarrow> ((e, after_turn (game tg) p d) # h, res))))"
  by (subst TimedGameProxy_play.simps)
     (simp add: wf_game_index[OF assms] after_turn_def Let_def split: sum.splits)

lemma timed_play_Nil: "TimedGameProxy_play tg inputs [] = ([], Inl StreamEnd)"
  by (subst TimedGameProxy_play.simps) simp

lemma timed_play_induct_wf [consumes 1, case_names turn]:
  assumes wf: "wf_game (game tg)"
    and step: "\<And>tg inputs clock. wf_game (game tg) \<Longrightarrow>
      (\<And>t ts e p tt d i ts'. clock = t # ts \<Longrightarrow> \<not> 60 \<le> t - start_time tg \<Longrightarrow>
          timed_turn (start_time tg) (players (game tg) ! nat (current_player (game tg))) 0
            (die (game tg)) inputs ts = Inr (e, p, tt, d, i, ts') \<Longrightarrow>
          e \<noteq> TimedOut \<Longrightarrow> \<not> 100 \<le> score p \<Longrightarrow>
          P (tg\<lparr>game := switch_turn (after_turn (game tg) p d)\<rparr>) i ts') \<Longrightarrow> P tg inputs clock"
  shows "P tg inputs clock"
  using wf
proof (induction "length clock" arbitrary: tg inputs clock rule: less_induct)
  case less
  show ?case
  proof (rule step[OF less.prems])
    fix t ts e p tt d i ts'
    assume c: "clock = t # ts"
      and t: "timed_turn (start_time tg) (players (game tg) ! nat (current_player (game tg))) 0
            (die (game tg)) inputs ts = Inr (e, p, tt, d, i, ts')"
    from timed_turn_length[OF t] c have "length ts' < length clock" by simp
    moreover have "wf_game (game (tg\<lparr>game := switch_turn (after_turn (game tg) p d)\<rparr>))"
      using wf_game_after_turn[OF less.prems] by simp
    ultimately show "P (tg\<lparr>game := switch_turn (after_turn (game tg) p d)\<rparr>) i ts'"
      by (rule less.hyps)
  qed
qed

lemma after_turn_step:
  assumes wf: "wf_game g"
    and p: "(e = Held \<and> p = add_score (players g ! nat (current_player g)) tt \<and> 0 \<le> tt)
            \<or> (e \<noteq> Held \<and> p = players g ! nat (current_player g))"
  shows "turn_step (players g) (e, after_turn g p d)"
proof -
  from wf have l: "length (players g) = 2" and c: "current_player g = 0 \<or> current_player g = 1"
    by (auto simp: wf_game_def)
  from l obtain a b where ab: "players g = [a, b]"
    by (cases "players g"; cases "tl (players g)") auto
  from p c ab show ?thesis
    by (auto simp: turn_step_def after_turn_def add_score_def Let_def)
qed

lemma turn_step_nonneg:
  assumes "turn_step ps (e, s)" "nonneg_scores ps"
  shows "nonneg_scores (players s)"
proof -
  from assms(1) have "list_all2 (\<lambda>p p'. score p \<le> score p') ps (players s)"
    by (simp add: turn_step_def Let_def)
  with assms(2) show ?thesis
    unfolding nonneg_scores_def list_all2_conv_all_nth list_all_length
    by (metis order_trans)
qed

lemma score_steps_nonneg:
  "score_steps ps h \<Longrightarrow> nonneg_scores ps \<Longrightarrow> \<forall>x \<in> set h. nonneg_scores (players (snd x))"
proof (induction h arbitrary: ps)
  case Nil
  then show ?case by simp
next
  case (Cons x h)
  obtain e s where x: "x = (e, s)" by (cases x)
  from Cons.prems x have n: "nonneg_scores (players s)"
    using turn_step_nonneg by auto
  with Cons.IH[of "players s"] Cons.prems x show ?case by auto
qed

lemma play_scores:
  assumes "wf_game g" "set (die g) \<subseteq> {1..6}" "play g inputs = (h, res)"
  shows "score_steps (players g) h
     \<and> (case res of Inl err \<Rightarrow> True | Inr (w, g', rest) \<Rightarrow> h \<noteq> [] \<and> g' = snd (last h))"
  using assms
proof (induction g inputs arbitrary: h res rule: play_induct_wf)
  case (turn g inputs)
  note wf = turn.hyps
  let ?k = "nat (current_player g)"
  show ?case
  proof (cases "turn (players g ! ?k) 0 (die g) inputs")
    case (Inl err)
    with turn.prems have "h = []" "res = Inl err"
      by (simp_all add: play_unfold[OF wf])
    then show ?thesis by simp
  next
    case (Inr x)
    obtain e p tt d i where x: "x = (e, p, tt, d, i)" by (cases x)
    let ?g' = "after_turn g p d"
    from turn_total_nonneg[OF Inr[unfolded x] _ turn.prems(1)]
    have tt: "0 \<le> tt" and d: "set d \<subseteq> {1..6}" by simp_all
    from turn_end_cases[OF Inr[unfolded x]] tt
    have st: "turn_step (players g) (e, ?g')"
      by (intro after_turn_step[OF wf]) auto
    show ?thesis
    proof (cases "100 \<le> score p")
      case True
      with turn.prems Inr x have "h = [(e, ?g')]"
        "res = Inr (Wins (name p) (score p), ?g', i)"
        by (simp_all add: play_unfold[OF wf])
      with st show ?thesis by simp
    next
      case False
      obtain h' res' where p': "play (switch_turn ?g') i = (h', res')"
        by (cases "play (switch_turn ?g') i")
      with turn.prems Inr x False have h: "h = (e, ?g') # h'" and r: "res = res'"
        by (simp_all add: play_unfold[OF wf])
      have "set (die (switch_turn ?g')) \<subseteq> {1..6}"
        using d by (simp add: switch_turn_def after_turn_def)
      from turn.IH[OF Inr[unfolded x] False this p']
      have IH: "score_steps (players ?g') h'"
        "(case res' of Inl err \<Rightarrow> True | Inr (w, g', rest) \<Rightarrow> h' \<noteq> [] \<and> g' = snd (last h'))"
        by (simp_all add: switch_turn_def)
      from IH(1) st have "score_steps (players g) h" by (simp add: h)
      moreover from IH(2)
      have "(case res of Inl err \<Rightarrow> True | Inr (w, g', rest) \<Rightarrow> h \<noteq> [] \<and> g' = snd (last h))"
        unfolding h r by (auto split: sum.splits)
      ultimately show ?thesis by simp
    qed
  qed
qed

lemma timed_turn_total_nonneg:
  assumes "timed_turn st p tt d inputs clock = Inr (e, p', tt', d', inputs', clock')"
    "0 \<le> tt" "set d \<subseteq> {1..6}"
  shows "0 \<le> tt' \<and> set d' \<subseteq> {1..6}"
proof -
  from timed_turn_rolls[OF assms(1)] obtain used where u: "d = used @ d'"
    "e \<noteq> Busted \<longrightarrow> tt' = tt + sum_list used" by blast
  from u(1) assms(3) have "\<forall>r \<in> set used. 0 \<le> r" and d': "set d' \<subseteq> {1..6}" by auto
  then have "0 \<le> sum_list used" by (simp add: sum_list_nonneg)
  moreover from timed_turn_end_cases[OF assms(1)] have "e \<noteq> Busted \<or> tt' = 0" by auto
  ultimately show ?thesis using u(2) assms(2) d' by auto
qed

lemma after_turn_same:
  assumes "wf_game g"
  shows "players (after_turn g (players g ! nat (current_player g)) d) = players g"
  by (simp add: after_turn_def)

lemma timed_play_scores:
  assumes "wf_game (game tg)" "set (die (game tg)) \<subseteq> {1..6}"
    "TimedGameProxy_play tg inputs clock = (h, res)"
  shows "score_steps (players (game tg)) h
     \<and> (case res of
          Inl err \<Rightarrow> True
        | Inr (w, tg', rest) \<Rightarrow>
            players (game tg') = (if h = [] then players (game tg) else players (snd (last h))))"
  using assms
proof (induction tg inputs clock arbitrary: h res rule: timed_play_induct_wf)
  case (turn tg inputs clock)
  note wf = turn.hyps
  let ?g = "game tg"
  let ?k = "nat (current_player ?g)"
  show ?case
  proof (cases clock)
    case Nil
    with turn.prems show ?thesis by (auto simp: timed_play_Nil)
  next
    case (Cons t ts)
    show ?thesis
    proof (cases "60 \<le> t - start_time tg")
      case True
      with turn.prems Cons show ?thesis
        by (auto simp: timed_play_unfold[OF wf] split: sum.splits)
    next
      case late: False
      show ?thesis
      proof (cases "timed_turn (start_time tg) (players ?g ! ?k) 0 (die ?g) inputs ts")
        case (Inl err)
        with turn.prems Cons late have "h = []" "res = Inl err"
          by (simp_all add: timed_play_unfold[OF wf])
        then show ?thesis by simp
      next
        case (Inr x)
        obtain e p tt d i ts' where x: "x = (e, p, tt, d, i, ts')" by (cases x)
        let ?g' = "after_turn ?g p d"
        from timed_turn_total_nonneg[OF Inr[unfolded x] _ turn.prems(1)]
        have tt: "0 \<le> tt" and d: "set d \<subseteq> {1..6}" by simp_all
        note ec = timed_turn_end_cases[OF Inr[unfolded x]]
        from ec tt have st: "turn_step (players ?g) (e, ?g')"
          by (intro after_turn_step[OF wf]) auto
        show ?thesis
        proof (cases "e = TimedOut")
          case True
          with ec have "p = players ?g ! ?k" by auto
          then have "players ?g' = players ?g" by (simp add: after_turn_def)
          with turn.prems Cons late Inr x True show ?thesis
            by (auto simp: timed_play_unfold[OF wf] split: sum.splits)
        next
          case nt: False
          show ?thesis
          proof (cases "100 \<le> score p")
            case True
            with turn.prems Cons late Inr x nt have "h = [(e, ?g')]"
              "res = Inr (Wins (name p) (score p), tg\<lparr>game := ?g'\<rparr>, i, ts')"
              by (simp_all add: timed_play_unfold[OF wf])
            with st show ?thesis by simp
          next
            case False
            let ?tg' = "tg\<lparr>game := switch_turn ?g'\<rparr>"
            obtain h' res' where p': "TimedGameProxy_play ?tg' i ts' = (h', res')"
              by (cases "TimedGameProxy_play ?tg' i ts'")
            with turn.prems Cons late Inr x nt False
            have h: "h = (e, ?g') # h'" and r: "res = res'"
              by (simp_all add: timed_play_unfold[OF wf])
            have "set (die (game ?tg')) \<subseteq> {1..6}"
              using d by (simp add: switch_turn_def after_turn_def)
            from turn.IH[OF Cons late Inr[unfolded x] nt False this p']
            have IH: "score_steps (players ?g') h'"
              "(case res' of
                  Inl err \<Rightarrow> True
                | Inr (w, tg', rest) \<Rightarrow>
                    players (game tg') = (if h' = [] then players ?g' else players (snd (last h'))))"
              by (auto simp: switch_turn_def split: sum.splits)
            from IH(1) st have "score_steps (players ?g) h" by (simp add: h)
            moreover from IH(2)
            have "(case res of
                  Inl err \<Rightarrow> True
                | Inr (w, tg', rest) \<Rightarrow>
                    players (game tg') = (if h = [] then players ?g else players (snd (last h))))"
              unfolding h r by (auto split: sum.splits)
            ultimately show ?thesis by simp
          qed
        qed
      qed
    qed
  qed
qed

lemma determine_winner_wf:
  assumes "wf_game g"
  shows "\<exists>w. determine_winner g = Inr w \<and> (\<forall>n s. w \<noteq> Wins n s)"
proof -
  from assms have "length (players g) = 2" by (simp add: wf_game_def)
  then obtain a b where ab: "players g = [a, b]"
    by (cases "players g"; cases "tl (players g)") auto
  then show ?thesis by (simp add: determine_winner_def)
qed

lemma timed_play_clock:
  assumes "wf_game (game tg)"
    "TimedGameProxy_play tg inputs clock = (h, Inr (w, tg', inputs', clock'))"
  shows "\<exists>rd. clock = rd @ clock' \<and> rd \<noteq> []
     \<and> (\<forall>t \<in> set (butlast rd). t - start_time tg < 60)
     \<and> (if 60 \<le> last rd - start_time tg
        then determine_winner (game tg') = Inr w \<and> (\<forall>n s. w \<noteq> Wins n s)
             \<and> players (game tg') = (if h = [] then players (game tg) else players (snd (last h)))
        else \<exists>n s. w = Wins n s \<and> 100 \<le> s)"
  using assms
proof (induction tg inputs clock arbitrary: h rule: timed_play_induct_wf)
  case (turn tg inputs clock)
  note wf = turn.hyps
  let ?g = "game tg"
  let ?k = "nat (current_player ?g)"
  let ?st = "start_time tg"
  let ?Q = "\<lambda>rd h. rd \<noteq> []
     \<and> (\<forall>t \<in> set (butlast rd). t - ?st < 60)
     \<and> (if 60 \<le> last rd - ?st
        then determine_winner (game tg') = Inr w \<and> (\<forall>n s. w \<noteq> Wins n s)
             \<and> players (game tg') = (if h = [] then players ?g else players (snd (last h)))
        else \<exists>n s. w = Wins n s \<and> 100 \<le> s)"
  show ?case
  proof (cases clock)
    case Nil
    with turn.prems show ?thesis by (simp add: timed_play_Nil)
  next
    case (Cons t ts)
    show ?thesis
    proof (cases "60 \<le> t - ?st")
      case True
      from determine_winner_wf[OF wf] obtain w0 where
        w0: "determine_winner ?g = Inr w0" "\<forall>n s. w0 \<noteq> Wins n s" by blast
      with turn.prems Cons True have "h = []" "w = w0" "tg' = tg" "clock' = ts"
        by (simp_all add: timed_play_unfold[OF wf])
      with w0 True Cons have "clock = [t] @ clock' \<and> ?Q [t] h" by simp
      then show ?thesis by blast
    next
      case late: False
      show ?thesis
      proof (cases "timed_turn ?st (players ?g ! ?k) 0 (die ?g) inputs ts")
        case (Inl err)
        with turn.prems Cons late show ?thesis
          by (simp add: timed_play_unfold[OF wf])
      next
        case (Inr x)
        obtain e p tt d i ts' where x: "x = (e, p, tt, d, i, ts')" by (cases x)
        let ?g' = "after_turn ?g p d"
        from timed_turn_clock[OF Inr[unfolded x]] obtain rd0 where
          rd0: "ts = rd0 @ ts'" "rd0 \<noteq> []" "\<forall>t \<in> set (butlast rd0). t - ?st < 60"
            "e = TimedOut \<longleftrightarrow> 60 \<le> last rd0 - ?st" by blast
        note ec = timed_turn_end_cases[OF Inr[unfolded x]]
        have wf': "wf_game ?g'" using wf by (simp add: wf_game_def after_turn_def)
        show ?thesis
        proof (cases "e = TimedOut")
          case True
          with ec have "p = players ?g ! ?k" by auto
          then have ps: "players ?g' = players ?g" by (simp add: after_turn_def)
          from determine_winner_wf[OF wf'] obtain w0 where
            w0: "determine_winner ?g' = Inr w0" "\<forall>n s. w0 \<noteq> Wins n s" by blast
          with turn.prems Cons late Inr x True
          have "h = []" "w = w0" "tg' = tg\<lparr>game := ?g'\<rparr>" "clock' = ts'"
            by (simp_all add: timed_play_unfold[OF wf])
          with w0 True Cons rd0 late ps have "clock = (t # rd0) @ clock' \<and> ?Q (t # rd0) h"
            by auto
          then show ?thesis by blast
        next
          case nt: False
          show ?thesis
          proof (cases "100 \<le> score p")
            case True
            with turn.prems Cons late Inr x nt
            have "w = Wins (name p) (score p)" "clock' = ts'"
              by (simp_all add: timed_play_unfold[OF wf])
            with True nt Cons rd0 late have "clock = (t # rd0) @ clock' \<and> ?Q (t # rd0) h"
              by auto
            then show ?thesis by blast
          next
            case False
            let ?tg' = "tg\<lparr>game := switch_turn ?g'\<rparr>"
            obtain h' res' where p': "TimedGameProxy_play ?tg' i ts' = (h', res')"
              by (cases "TimedGameProxy_play ?tg' i ts'")
            with turn.prems Cons late Inr x nt False
            have h: "h = (e, ?g') # h'" and r: "res' = Inr (w, tg', inputs', clock')"
              by (simp_all add: timed_play_unfold[OF wf])
            from turn.IH[OF Cons late Inr[unfolded x] nt False p'[unfolded r]]
            obtain rd1 where rd1: "ts' = rd1 @ clock'" "rd1 \<noteq> []"
              "\<forall>t \<in> set (butlast rd1). t - ?st < 60"
              "if 60 \<le> last rd1 - ?st
               then determine_winner (game tg') = Inr w \<and> (\<forall>n s. w \<noteq> Wins n s)
                 \<and> players (game tg')
                     = (if h' = [] then players (switch_turn ?g') else players (snd (last h')))
               else \<exists>n s. w = Wins n s \<and> 100 \<le> s"
              by auto
            from rd0 nt have all0: "\<forall>t \<in> set rd0. t - ?st < 60"
              by (metis append_butlast_last_id insert_iff list.set(2) not_le rotate1.simps(2) set_rotate1)
            have bl: "butlast ((t # rd0) @ rd1) = t # rd0 @ butlast rd1"
              using rd1(2) by (simp add: butlast_append)
            have la: "last ((t # rd0) @ rd1) = last rd1" using rd1(2) by simp
            have "clock = ((t # rd0) @ rd1) @ clock'" using Cons rd0(1) rd1(1) by simp
            moreover have "?Q ((t # rd0) @ rd1) h"
              unfolding bl la using rd1 all0 late h
              by (auto simp: switch_turn_def split: if_splits)
            ultimately show ?thesis by blast
          qed
        qed
      qed
    qed
  qed
qed

lemma of_char_less_256: "(of_char c :: nat) < 256"
proof -
  have "(of_char c :: nat) mod 256 = of_char c" by (rule of_char_mod_256)
  moreover have "(of_char c :: nat) mod 256 < 256" by simp
  ultimately show ?thesis by simp
qed

lemma lower_char_eq:
  assumes "97 \<le> (of_char l :: nat)" "(of_char l :: nat) \<le> 122"
  shows "lower_char c = l \<longleftrightarrow> same_letter c l"
proof -
  let ?n = "of_char c :: nat"
  have n: "?n < 256" by (rule of_char_less_256)
  have cl: "c = l \<longleftrightarrow> ?n = of_char l" by (simp add: of_char_eq_iff)
  show ?thesis
  proof (cases "(65 \<le> ?n \<and> ?n \<le> 90) \<or> (192 \<le> ?n \<and> ?n \<le> 222 \<and> ?n \<noteq> 215)")
    case True
    then have "lower_char c = char_of (?n + 32)" by (simp add: lower_char_def Let_def)
    moreover have "take_bit 8 (?n + 32) = ?n + 32"
      using True by (intro take_bit_nat_eq_self) auto
    ultimately have "lower_char c = l \<longleftrightarrow> ?n + 32 = of_char l"
      by (simp add: char_of_eq_iff)
    moreover from True assms have "?n \<noteq> of_char l" by auto
    ultimately show ?thesis unfolding same_letter_def cl by simp
  next
    case False
    then have "lower_char c = c" by (auto simp: lower_char_def Let_def)
    moreover from False assms have "?n + 32 \<noteq> of_char l" by auto
    ultimately show ?thesis unfolding same_letter_def by simp
  qed
qed

lemma lower_eq_casing:
  "lower_word w \<Longrightarrow> lower t = w \<longleftrightarrow> casing_of w t"
proof (induction t arbitrary: w)
  case Nil
  then show ?case by (auto simp: lower_def casing_of_def)
next
  case (Cons c t)
  show ?case
  proof (cases w)
    case Nil
    then show ?thesis by (simp add: lower_def casing_of_def)
  next
    case (Cons l w')
    with Cons.prems have l: "97 \<le> (of_char l :: nat)" "(of_char l :: nat) \<le> 122"
      and w': "lower_word w'" by (simp_all add: lower_word_def)
    from Cons.IH[OF w'] have "lower t = w' \<longleftrightarrow> casing_of w' t" .
    with lower_char_eq[OF l, of c] Cons show ?thesis
      by (simp add: lower_def casing_of_def)
  qed
qed

lemma lower_word_labels: "lower_word ''human''" "lower_word ''computer''" "lower_word ''yes''"
  by (simp_all add: lower_word_def)

lemma lower_char_idem: "lower_char (lower_char c) = lower_char c"
proof -
  let ?n = "of_char c :: nat"
  have n: "?n < 256" by (rule of_char_less_256)
  show ?thesis
  proof (cases "(65 \<le> ?n \<and> ?n \<le> 90) \<or> (192 \<le> ?n \<and> ?n \<le> 222 \<and> ?n \<noteq> 215)")
    case True
    then have l: "lower_char c = char_of (?n + 32)" by (simp add: lower_char_def Let_def)
    have "(of_char (char_of (?n + 32)) :: nat) = (?n + 32) mod 256" by simp
    also have "\<dots> = ?n + 32" using True by auto
    finally have "(of_char (lower_char c) :: nat) = ?n + 32" using l by simp
    with True show ?thesis
      by (subst lower_char_def) (auto simp: Let_def)
  next
    case False
    then have "lower_char c = c" by (auto simp: lower_char_def Let_def)
    then show ?thesis by simp
  qed
qed

lemma lower_idem: "lower (lower s) = lower s"
  by (simp add: lower_def lower_char_idem)

lemma create_player_cases:
  "create_player t n =
     (if casing_of ''human'' t then Inr \<lparr>name = n, score = 0, kind = HumanPlayer\<rparr>
      else if casing_of ''computer'' t then Inr \<lparr>name = n, score = 0, kind = ComputerPlayer\<rparr>
      else Inl ValueError)"
  by (simp add: create_player_def Player_init_def lower_eq_casing lower_word_labels)

lemma casing_of_lower: "lower_word w \<Longrightarrow> casing_of w (lower t) \<longleftrightarrow> casing_of w t"
  using lower_eq_casing[of w "lower t"] lower_eq_casing[of w t] by (simp add: lower_idem)

lemma valid_label_lower [simp]: "valid_label (lower t) = valid_label t"
  by (simp add: valid_label_def casing_of_lower lower_word_labels)

lemma PigGame_init_invalid:
  "\<not> valid_label t1 \<or> \<not> valid_label t2 \<Longrightarrow> PigGame_init rng t1 t2 = Inl ValueError"
  by (auto simp: PigGame_init_def create_player_cases valid_label_def Let_def)

lemma same_letter_not_space:
  assumes "97 \<le> (of_char l :: nat)" "(of_char l :: nat) \<le> 122" "same_letter c l"
  shows "\<not> isspace c"
proof -
  from assms(3) have "(of_char c :: nat) = of_char l \<or> (of_char c :: nat) + 32 = of_char l"
    by (auto simp: same_letter_def)
  with assms(1,2) have "65 \<le> (of_char c :: nat) \<and> (of_char c :: nat) \<le> 122" by auto
  then show ?thesis by (auto simp: isspace_def Let_def)
qed

lemma casing_of_no_space:
  assumes "lower_word w" "casing_of w t"
  shows "list_all (\<lambda>c. \<not> isspace c) t"
proof -
  from assms(2) have l: "list_all2 same_letter t w" by (simp add: casing_of_def)
  show ?thesis
    unfolding list_all_length
  proof (intro allI impI)
    fix i assume i: "i < length t"
    with l have "same_letter (t ! i) (w ! i)" and iw: "i < length w"
      by (auto simp: list_all2_conv_all_nth)
    moreover from assms(1) iw
    have "97 \<le> (of_char (w ! i) :: nat) \<and> (of_char (w ! i) :: nat) \<le> 122"
      by (simp add: lower_word_def list_all_length)
    ultimately show "\<not> isspace (t ! i)" using same_letter_not_space by blast
  qed
qed

lemma strip_core:
  assumes "list_all isspace ws1" "list_all isspace ws2" "core \<noteq> []"
    "list_all (\<lambda>c. \<not> isspace c) core"
  shows "strip (ws1 @ core @ ws2) = core"
proof -
  from assms(3) obtain c cs where c: "core = c # cs" by (cases core) auto
  from assms(3) obtain bs b where b: "core = bs @ [b]" by (cases core rule: rev_cases) auto
  from c assms(4) have hc: "\<not> isspace c" by simp
  from b assms(4) have hb: "\<not> isspace b" by simp
  have "dropWhile isspace (ws1 @ core @ ws2) = dropWhile isspace (core @ ws2)"
    using assms(1) by (intro dropWhile_append2) (simp add: list_all_iff)
  also have "\<dots> = core @ ws2" using c hc by simp
  finally have 1: "dropWhile isspace (ws1 @ core @ ws2) = core @ ws2" .
  have "dropWhile isspace (rev (core @ ws2)) = dropWhile isspace (rev ws2 @ rev core)" by simp
  also have "\<dots> = dropWhile isspace (rev core)"
    using assms(2) by (intro dropWhile_append2) (simp add: list_all_iff)
  also have "\<dots> = rev core" using b hb by simp
  finally show ?thesis by (simp add: strip_def 1)
qed

lemma strip_decompose:
  "\<exists>ws1 ws2. s = ws1 @ strip s @ ws2 \<and> list_all isspace ws1 \<and> list_all isspace ws2"
proof -
  let ?b = "dropWhile isspace s"
  have 1: "s = takeWhile isspace s @ ?b" by simp
  have "rev (dropWhile isspace (rev ?b)) @ rev (takeWhile isspace (rev ?b))
      = rev (takeWhile isspace (rev ?b) @ dropWhile isspace (rev ?b))"
    by (simp only: rev_append)
  also have "\<dots> = rev (rev ?b)" by (simp only: takeWhile_dropWhile_id)
  also have "\<dots> = ?b" by simp
  finally have 2: "?b = strip s @ rev (takeWhile isspace (rev ?b))"
    by (simp add: strip_def)
  have "s = takeWhile isspace s @ strip s @ rev (takeWhile isspace (rev ?b))"
    using 1 2 by metis
  moreover have "list_all isspace (takeWhile isspace s)"
    by (simp add: list_all_iff) (meson set_takeWhileD)
  moreover have "list_all isspace (rev (takeWhile isspace (rev ?b)))"
    by (simp add: list_all_iff) (meson set_takeWhileD)
  ultimately show ?thesis by blast
qed

lemma in_set_splits: "(a, b) \<in> set (splits xs) \<longleftrightarrow> a @ b = xs"
proof (induction xs arbitrary: a)
  case Nil
  show ?case by auto
next
  case (Cons x xs)
  show ?case
  proof (cases a)
    case Nil
    then show ?thesis by auto
  next
    case (Cons y ys)
    have "(y # ys, b) \<in> (\<lambda>(a, b). (x # a, b)) ` set (splits xs)
        \<longleftrightarrow> y = x \<and> (ys, b) \<in> set (splits xs)"
      by force
    with Cons Cons.IH[of ys] show ?thesis by auto
  qed
qed

lemma answer_is_split:
  "answer_is w a \<longleftrightarrow>
     (\<exists>ws1 core ws2. a = ws1 @ core @ ws2 \<and> list_all isspace ws1 \<and> list_all isspace ws2
        \<and> casing_of w core)"
proof
  assume "answer_is w a"
  then obtain ws1 r core ws2 where "(ws1, r) \<in> set (splits a)" "list_all isspace ws1"
    "(core, ws2) \<in> set (splits r)" "casing_of w core" "list_all isspace ws2"
    unfolding answer_is_def list_ex_iff by auto
  then have "a = ws1 @ core @ ws2 \<and> list_all isspace ws1 \<and> list_all isspace ws2
        \<and> casing_of w core"
    by (auto simp: in_set_splits)
  then show "\<exists>ws1 core ws2. a = ws1 @ core @ ws2 \<and> list_all isspace ws1
      \<and> list_all isspace ws2 \<and> casing_of w core"
    by blast
next
  assume "\<exists>ws1 core ws2. a = ws1 @ core @ ws2 \<and> list_all isspace ws1 \<and> list_all isspace ws2
        \<and> casing_of w core"
  then obtain ws1 core ws2 where a: "a = ws1 @ core @ ws2" "list_all isspace ws1"
    "list_all isspace ws2" "casing_of w core" by blast
  from a(1) have "(ws1, core @ ws2) \<in> set (splits a)" "(core, ws2) \<in> set (splits (core @ ws2))"
    by (simp_all add: in_set_splits)
  with a(2,3,4) show "answer_is w a"
    unfolding answer_is_def list_ex_iff by blast
qed

lemma lower_strip_eq:
  assumes "lower_word w" "w \<noteq> []"
  shows "lower (strip a) = w \<longleftrightarrow> answer_is w a"
proof
  assume l: "lower (strip a) = w"
  with assms(1) have "casing_of w (strip a)" by (simp add: lower_eq_casing)
  with strip_decompose[of a] show "answer_is w a" unfolding answer_is_split by blast
next
  assume "answer_is w a"
  then obtain ws1 core ws2 where a: "a = ws1 @ core @ ws2" "list_all isspace ws1"
    "list_all isspace ws2" "casing_of w core" unfolding answer_is_split by blast
  from a(4) assms(2) have "core \<noteq> []" by (auto simp: casing_of_def)
  with a casing_of_no_space[OF assms(1) a(4)] have "strip a = core"
    by (simp add: strip_core)
  with a(4) assms(1) show "lower (strip a) = w" by (simp add: lower_eq_casing)
qed

lemma PigGame_init_valid:
  assumes "valid_label t1" "valid_label t2"
  shows "\<exists>g. PigGame_init rng t1 t2 = Inr g"
  using assms
  by (auto simp: PigGame_init_def create_player_cases valid_label_def Let_def)

lemma PigGame_init_isl:
  "isl (PigGame_init rng t1 t2) \<longleftrightarrow> \<not> valid_label t1 \<or> \<not> valid_label t2"
  using PigGame_init_valid[of t1 t2 rng] PigGame_init_invalid[of t1 t2 rng] by auto

lemma turn_computer:
  assumes "kind p = ComputerPlayer"
  shows "turn p tt d i =
     (case turn p tt d j of Inl e \<Rightarrow> Inl e | Inr (e, p', tt', d', _) \<Rightarrow> Inr (e, p', tt', d', i))"
proof (induction d arbitrary: tt)
  case Nil
  from assms show ?case
    by (cases "ComputerPlayer_decide p tt") (simp_all add: turn.simps[of p tt "[]"] decide_def)
next
  case (Cons r rs)
  show ?case
  proof (cases "ComputerPlayer_decide p tt")
    case Roll
    with assms have di: "decide p tt i = Inr (Roll, i)" and dj: "decide p tt j = Inr (Roll, j)"
      by (simp_all add: decide_def)
    show ?thesis
      unfolding turn_roll[OF di] turn_roll[OF dj] using Cons.IH[of "tt + r"] by simp
  next
    case Hold
    with assms have di: "decide p tt i = Inr (Hold, i)" and dj: "decide p tt j = Inr (Hold, j)"
      by (simp_all add: decide_def)
    show ?thesis
      unfolding turn_hold[OF di] turn_hold[OF dj] by simp
  qed
qed

lemma turn_kind:
  "turn p tt d i = Inr (e, p', tt', d', i') \<Longrightarrow> kind p' = kind p"
  by (drule turn_end_cases) (auto simp: add_score_def)

lemma play_computer:
  assumes "wf_game g" "all_computer g"
  shows "fst (play g i) = fst (play g j)
     \<and> drop_inputs (snd (play g i)) = drop_inputs (snd (play g j))"
  using assms
proof (induction g i arbitrary: j rule: play_induct_wf)
  case (turn g i)
  note wf = turn.hyps
  let ?k = "nat (current_player g)"
  let ?p = "players g ! ?k"
  from wf have l: "length (players g) = 2" and c: "current_player g = 0 \<or> current_player g = 1"
    by (auto simp: wf_game_def)
  with turn.prems have kp: "kind ?p = ComputerPlayer"
    by (auto simp: all_computer_def list_all_length)
  note tc = turn_computer[OF kp, of 0 "die g" i j]
  show ?case
  proof (cases "turn ?p 0 (die g) j")
    case (Inl err)
    with tc have "turn ?p 0 (die g) i = Inl err" by simp
    with Inl show ?thesis by (simp add: play_unfold[OF wf] drop_inputs_def)
  next
    case (Inr x)
    obtain e p tt d j' where x: "x = (e, p, tt, d, j')" by (cases x)
    with Inr tc have ti: "turn ?p 0 (die g) i = Inr (e, p, tt, d, i)" by simp
    from turn_computer[OF kp, of 0 "die g" j j] Inr x have j': "j' = j" by simp
    let ?g' = "after_turn g p d"
    show ?thesis
    proof (cases "100 \<le> score p")
      case True
      with ti Inr x show ?thesis by (simp add: play_unfold[OF wf] drop_inputs_def)
    next
      case False
      from turn_kind[OF ti] kp have "kind p = ComputerPlayer" by simp
      with turn.prems have "all_computer (switch_turn ?g')"
        by (auto simp: all_computer_def switch_turn_def after_turn_def list_all_iff
              dest: set_update_subset_insert[THEN subsetD])
      from turn.IH[OF ti False this, of j]
      have "fst (play (switch_turn ?g') i) = fst (play (switch_turn ?g') j)"
        "drop_inputs (snd (play (switch_turn ?g') i)) = drop_inputs (snd (play (switch_turn ?g') j))"
        by simp_all
      with ti Inr x j' False show ?thesis
        by (auto simp: play_unfold[OF wf] split: prod.splits)
    qed
  qed
qed

lemma PigGame_init_computer:
  assumes "casing_of ''computer'' t1" "casing_of ''computer'' t2"
  shows "PigGame_init rng t1 t2 =
     Inr \<lparr>die = rng 0,
          players = [\<lparr>name = ''Player 1'', score = 0, kind = ComputerPlayer\<rparr>,
                     \<lparr>name = ''Player 2'', score = 0, kind = ComputerPlayer\<rparr>],
          current_player = 0\<rparr>"
proof -
  have "\<not> casing_of ''human'' t" if "casing_of ''computer'' t" for t
  proof
    assume "casing_of ''human'' t"
    with that have "length t = length ''human''" "length t = length ''computer''"
      unfolding casing_of_def by (auto dest: list_all2_lengthD)
    then show False by simp
  qed
  with assms show ?thesis
    by (simp add: PigGame_init_def Die_init_def create_player_cases Let_def)
qed

lemma timed_turn_uncut:
  assumes "\<forall>t \<in> set clock. t - st < 60"
    "timed_turn st p tt d i clock = Inr (e, p', tt', d', i', c')"
  shows "turn p tt d i = Inr (e, p', tt', d', i') \<and> set c' \<subseteq> set clock"
  using assms
proof (induction clock arbitrary: tt d i)
  case Nil
  then show ?case by (simp add: timed_turn.simps)
next
  case (Cons t ts)
  from Cons.prems(1) have t: "\<not> 60 \<le> t - st" and ts: "\<forall>t \<in> set ts. t - st < 60" by auto
  from Cons.prems(2) show ?case
  proof (cases rule: timed_turn_cases)
    case timeout
    with t show ?thesis by simp
  next
    case (bust i0 rs)
    then show ?thesis by (auto simp: turn_roll)
  next
    case (roll i0 r rs)
    from Cons.IH[OF ts roll(5)] roll(2,3,4) show ?thesis by (auto simp: turn_roll)
  next
    case (hold i0)
    then show ?thesis by (auto simp: turn_hold)
  qed
qed

lemma timed_play_uncut:
  assumes "wf_game (game tg)" "\<forall>t \<in> set clock. t - start_time tg < 60"
    "TimedGameProxy_play tg inputs clock = (h, Inr (w, tg', i', c'))"
  shows "play (game tg) inputs = (h, Inr (w, game tg', i'))"
  using assms
proof (induction tg inputs clock arbitrary: h rule: timed_play_induct_wf)
  case (turn tg inputs clock)
  note wf = turn.hyps
  let ?g = "game tg"
  let ?k = "nat (current_player ?g)"
  show ?case
  proof (cases clock)
    case Nil
    with turn.prems show ?thesis by (simp add: timed_play_Nil)
  next
    case (Cons t ts)
    with turn.prems(1) have late: "\<not> 60 \<le> t - start_time tg"
      and ts: "\<forall>t \<in> set ts. t - start_time tg < 60" by auto
    show ?thesis
    proof (cases "timed_turn (start_time tg) (players ?g ! ?k) 0 (die ?g) inputs ts")
      case (Inl err)
      with turn.prems Cons late show ?thesis by (simp add: timed_play_unfold[OF wf])
    next
      case (Inr x)
      obtain e p tt d i ts' where x: "x = (e, p, tt, d, i, ts')" by (cases x)
      from timed_turn_uncut[OF ts Inr[unfolded x]]
      have tu: "turn (players ?g ! ?k) 0 (die ?g) inputs = Inr (e, p, tt, d, i)"
        and ts': "\<forall>t \<in> set ts'. t - start_time tg < 60" using ts by auto
      from turn_end_cases[OF tu] have nt: "e \<noteq> TimedOut" by auto
      let ?g' = "after_turn ?g p d"
      show ?thesis
      proof (cases "100 \<le> score p")
        case True
        with turn.prems Cons late Inr x nt tu show ?thesis
          by (auto simp: timed_play_unfold[OF wf] play_unfold[OF wf])
      next
        case False
        let ?tg' = "tg\<lparr>game := switch_turn ?g'\<rparr>"
        obtain h' res' where p': "TimedGameProxy_play ?tg' i ts' = (h', res')"
          by (cases "TimedGameProxy_play ?tg' i ts'")
        with turn.prems Cons late Inr x nt False
        have h: "h = (e, ?g') # h'" and r: "res' = Inr (w, tg', i', c')"
          by (simp_all add: timed_play_unfold[OF wf])
        from turn.IH[OF Cons late Inr[unfolded x] nt False _ p'[unfolded r]] ts'
        have "play (switch_turn ?g') i = (h', Inr (w, game tg', i'))" by simp
        with tu False h show ?thesis by (simp add: play_unfold[OF wf])
      qed
    qed
  qed
qed

lemma HumanPlayer_decide_error: "HumanPlayer_decide inputs = Inl e \<Longrightarrow> e = EOFError"
  by (induction inputs) (auto simp: Let_def split: if_splits)

lemma decide_error:
  "decide p tt inputs = Inl e \<Longrightarrow> e = EOFError \<and> kind p = HumanPlayer"
  by (cases "kind p") (auto simp: decide_def dest: HumanPlayer_decide_error)

lemma timed_turn_late:
  "60 \<le> t - st \<Longrightarrow> timed_turn st p tt d i (t # ts) = Inr (TimedOut, p, tt, d, i, ts)"
  by (simp add: timed_turn.simps)

lemma timed_turn_early:
  "\<not> 60 \<le> t - st \<Longrightarrow>
     timed_turn st p tt d i (t # ts) =
       (case decide p tt i of
          Inl e \<Rightarrow> Inl e
        | Inr (Roll, i') \<Rightarrow>
            (case d of
               [] \<Rightarrow> Inl StreamEnd
             | r # rs \<Rightarrow>
                 if r = 1 then Inr (Busted, p, 0, rs, i', ts)
                 else timed_turn st p (tt + r) rs i' ts)
        | Inr (Hold, i') \<Rightarrow> Inr (Held, add_score p tt, tt, d, i', ts))"
  by (simp add: timed_turn.simps)

text \<open>
  A turn of the timed loop before a clock that reaches 60 seconds at the reading \<open>t\<close>,
  after the readings \<open>pre\<close>, with a roll at hand for each of them: the turn fails only at
  the end of a human player's input, or it is cut off at \<open>t\<close>, or it ends before.
\<close>

lemma timed_turn_total:
  assumes "\<forall>x \<in> set pre. x - st < 60" "60 \<le> t - st" "length pre \<le> length d"
  shows "(timed_turn st p tt d i (pre @ t # post) = Inl EOFError \<and> kind p = HumanPlayer)
     \<or> (\<exists>tt' d' i'. timed_turn st p tt d i (pre @ t # post) = Inr (TimedOut, p, tt', d', i', post))
     \<or> (\<exists>e p' tt' d' i' pre'. e \<noteq> TimedOut
           \<and> timed_turn st p tt d i (pre @ t # post) = Inr (e, p', tt', d', i', pre' @ t # post)
           \<and> length pre' < length pre \<and> (\<forall>x \<in> set pre'. x - st < 60) \<and> length pre' \<le> length d')"
  using assms
proof (induction pre arbitrary: tt d i)
  case Nil
  then show ?case by (simp add: timed_turn_late)
next
  case (Cons x pre)
  from Cons.prems have x: "\<not> 60 \<le> x - st" and pre: "\<forall>x \<in> set pre. x - st < 60" by auto
  from Cons.prems(3) obtain r rs where d: "d = r # rs" and rs: "length pre \<le> length rs"
    by (cases d) auto
  note step = timed_turn_early[OF x, of p tt d i "pre @ t # post"]
  show ?case
  proof (cases "decide p tt i")
    case (Inl e)
    with decide_error[OF Inl] step show ?thesis by simp
  next
    case (Inr ci)
    obtain c i0 where ci: "ci = (c, i0)" by (cases ci)
    show ?thesis
    proof (cases c)
      case Roll
      show ?thesis
      proof (cases "r = 1")
        case True
        with step Inr ci Roll d
        have "timed_turn st p tt d i ((x # pre) @ t # post) = Inr (Busted, p, 0, rs, i0, pre @ t # post)"
          by simp
        with pre rs have "Busted \<noteq> TimedOut
           \<and> timed_turn st p tt d i ((x # pre) @ t # post) = Inr (Busted, p, 0, rs, i0, pre @ t # post)
           \<and> length pre < length (x # pre) \<and> (\<forall>x \<in> set pre. x - st < 60) \<and> length pre \<le> length rs"
          by simp
        then show ?thesis by blast
      next
        case False
        with step Inr ci Roll d
        have eq: "timed_turn st p tt d i ((x # pre) @ t # post)
            = timed_turn st p (tt + r) rs i0 (pre @ t # post)"
          by simp
        from Cons.IH[OF pre Cons.prems(2) rs, of "tt + r" i0]
        show ?thesis unfolding eq by (elim disjE exE conjE) (simp, blast, force)
      qed
    next
      case Hold
      with step Inr ci
      have "timed_turn st p tt d i ((x # pre) @ t # post)
          = Inr (Held, add_score p tt, tt, d, i0, pre @ t # post)"
        by simp
      with pre Cons.prems(3) have "Held \<noteq> TimedOut
           \<and> timed_turn st p tt d i ((x # pre) @ t # post)
               = Inr (Held, add_score p tt, tt, d, i0, pre @ t # post)
           \<and> length pre < length (x # pre) \<and> (\<forall>x \<in> set pre. x - st < 60) \<and> length pre \<le> length d"
        by simp
      then show ?thesis by blast
    qed
  qed
qed


lemma all_computer_after_turn:
  assumes "wf_game g" "kind p = kind (players g ! nat (current_player g))"
  shows "all_computer (switch_turn (after_turn g p d)) = all_computer g"
proof -
  from assms(1) have l: "length (players g) = 2"
    and c: "current_player g = 0 \<or> current_player g = 1"
    by (auto simp: wf_game_def)
  from l obtain a b where ab: "players g = [a, b]"
    by (cases "players g"; cases "tl (players g)") auto
  from c ab assms(2) show ?thesis
    by (auto simp: all_computer_def switch_turn_def after_turn_def)
qed

lemma timed_turn_kind:
  "timed_turn st p tt d i clock = Inr (e, p', tt', d', i', c') \<Longrightarrow> kind p' = kind p"
  by (drule timed_turn_end_cases) (auto simp: add_score_def)

text \<open>
  The timed game before a clock that reaches 60 seconds at the reading \<open>t\<close>, after the
  readings \<open>pre\<close>, with a roll at hand for each of them: the game fails only at the end
  of a human player's input, or it ends at \<open>t\<close> by the clock, or a player wins before.
\<close>

lemma timed_play_total:
  assumes "wf_game (game tg)" "\<forall>x \<in> set pre. x - start_time tg < 60" "60 \<le> t - start_time tg"
    "length pre \<le> length (die (game tg))"
    "TimedGameProxy_play tg inputs (pre @ t # post) = (h, res)"
  shows "(res = Inl EOFError \<and> \<not> all_computer (game tg))
     \<or> (\<exists>w tg' i'. res = Inr (w, tg', i', post) \<and> (\<forall>n s. w \<noteq> Wins n s))
     \<or> (\<exists>n s tg' i' c'. res = Inr (Wins n s, tg', i', c') \<and> length post < length c')"
  using assms
proof (induction "length pre" arbitrary: tg inputs pre h res rule: less_induct)
  case less
  note wf = less.prems(1)
  let ?g = "game tg"
  let ?k = "nat (current_player ?g)"
  let ?st = "start_time tg"
  from wf have k2: "?k < length (players ?g)" by (auto simp: wf_game_def)
  show ?case
  proof (cases pre)
    case Nil
    from determine_winner_wf[OF wf] obtain w0 where
      w0: "determine_winner ?g = Inr w0" "\<forall>n s. w0 \<noteq> Wins n s" by blast
    with less.prems(3,5) Nil have "res = Inr (w0, tg, inputs, post)"
      by (simp add: timed_play_unfold[OF wf])
    with w0(2) show ?thesis by blast
  next
    case (Cons x pre1)
    with less.prems have x: "\<not> 60 \<le> x - ?st" and pre1: "\<forall>x \<in> set pre1. x - ?st < 60"
      and l1: "length pre1 \<le> length (die ?g)" by auto
    let ?c1 = "pre1 @ t # post"
    let ?t = "timed_turn ?st (players ?g ! ?k) 0 (die ?g) inputs ?c1"
    from less.prems(5) Cons have run: "TimedGameProxy_play tg inputs (x # ?c1) = (h, res)" by simp
    from timed_turn_total[OF pre1 less.prems(3) l1, of "players ?g ! ?k" 0 inputs post]
    consider (eof) "?t = Inl EOFError" "kind (players ?g ! ?k) = HumanPlayer"
      | (cut) tt' d' i' where "?t = Inr (TimedOut, players ?g ! ?k, tt', d', i', post)"
      | (ended) e p' tt' d' i' pre' where "e \<noteq> TimedOut"
          "?t = Inr (e, p', tt', d', i', pre' @ t # post)" "length pre' < length pre1"
          "\<forall>x \<in> set pre'. x - ?st < 60" "length pre' \<le> length d'"
      by blast
    then show ?thesis
    proof cases
      case eof
      with run x have "res = Inl EOFError" by (simp add: timed_play_unfold[OF wf])
      moreover from eof(2) k2 have "\<not> all_computer ?g"
        by (auto simp: all_computer_def list_all_length)
      ultimately show ?thesis by simp
    next
      case cut
      let ?g' = "after_turn ?g (players ?g ! ?k) d'"
      have "wf_game ?g'" using wf by (simp add: wf_game_def after_turn_def)
      from determine_winner_wf[OF this] obtain w0 where
        w0: "determine_winner ?g' = Inr w0" "\<forall>n s. w0 \<noteq> Wins n s" by blast
      with run x cut have "res = Inr (w0, tg\<lparr>game := ?g'\<rparr>, i', post)"
        by (simp add: timed_play_unfold[OF wf])
      with w0(2) show ?thesis by blast
    next
      case ended
      let ?g' = "after_turn ?g p' d'"
      show ?thesis
      proof (cases "100 \<le> score p'")
        case True
        with run x ended(1,2)
        have "res = Inr (Wins (name p') (score p'), tg\<lparr>game := ?g'\<rparr>, i', pre' @ t # post)"
          by (simp add: timed_play_unfold[OF wf])
        then have "res = Inr (Wins (name p') (score p'), tg\<lparr>game := ?g'\<rparr>, i', pre' @ t # post)
            \<and> length post < length (pre' @ t # post)" by simp
        then show ?thesis by blast
      next
        case False
        let ?tg' = "tg\<lparr>game := switch_turn ?g'\<rparr>"
        obtain h' res' where p': "TimedGameProxy_play ?tg' i' (pre' @ t # post) = (h', res')"
          by (cases "TimedGameProxy_play ?tg' i' (pre' @ t # post)")
        with run x ended(1,2) False have r: "res = res'"
          by (simp add: timed_play_unfold[OF wf])
        have wf': "wf_game (game ?tg')" using wf_game_after_turn[OF wf] by simp
        have lt: "length pre' < length pre" using ended(3) Cons by simp
        have ld: "length pre' \<le> length (die (game ?tg'))"
          using ended(5) by (simp add: switch_turn_def after_turn_def)
        from less.hyps[OF lt wf' _ _ ld p'] ended(4) less.prems(3)
        have IH: "(res' = Inl EOFError \<and> \<not> all_computer (game ?tg'))
           \<or> (\<exists>w tg' i'. res' = Inr (w, tg', i', post) \<and> (\<forall>n s. w \<noteq> Wins n s))
           \<or> (\<exists>n s tg' i' c'. res' = Inr (Wins n s, tg', i', c') \<and> length post < length c')"
          by simp
        have "all_computer (game ?tg') = all_computer ?g"
          using all_computer_after_turn[OF wf, of p' d'] timed_turn_kind[OF ended(2)] by simp
        with IH r show ?thesis by simp
      qed
    qed
  qed
qed


lemma timed_play_deadline:
  assumes "wf_game (game tg)" "\<forall>x \<in> set pre. x - start_time tg < 60" "60 \<le> t - start_time tg"
    "length pre \<le> length (die (game tg))"
    "TimedGameProxy_play tg inputs (pre @ t # post) = (h, res)"
  shows "(res = Inl EOFError \<and> \<not> all_computer (game tg))
     \<or> (\<exists>w tg' i'. res = Inr (w, tg', i', post) \<and> determine_winner (game tg') = Inr w
           \<and> (\<forall>n s. w \<noteq> Wins n s)
           \<and> players (game tg') = (if h = [] then players (game tg) else players (snd (last h))))
     \<or> (\<exists>n s tg' i' c'. res = Inr (Wins n s, tg', i', c') \<and> 100 \<le> s \<and> length post < length c')"
proof -
  from timed_play_total[OF assms]
  consider (eof) "res = Inl EOFError" "\<not> all_computer (game tg)"
    | (cut) w tg' i' where "res = Inr (w, tg', i', post)"
    | (win) n s tg' i' c' where "res = Inr (Wins n s, tg', i', c')" "length post < length c'"
    by blast
  then show ?thesis
  proof cases
    case eof
    then show ?thesis by simp
  next
    case cut
    from timed_play_clock[OF assms(1) assms(5)[unfolded cut]] obtain rd where
      rd: "pre @ t # post = rd @ post"
        "if 60 \<le> last rd - start_time tg
         then determine_winner (game tg') = Inr w \<and> (\<forall>n s. w \<noteq> Wins n s)
              \<and> players (game tg') = (if h = [] then players (game tg) else players (snd (last h)))
         else \<exists>n s. w = Wins n s \<and> 100 \<le> s"
      by blast
    from rd(1) have "rd = pre @ [t]" by simp
    with rd(2) assms(3) cut show ?thesis by simp
  next
    case win
    from timed_play_clock[OF assms(1) assms(5)[unfolded win(1)]] have "100 \<le> s"
      by (auto split: if_splits)
    with win show ?thesis by blast
  qed
qed

lemma timed_turn_is_turn:
  "timed_turn st p tt d i clock = Inr (e, p', tt', d', i', c') \<Longrightarrow> e \<noteq> TimedOut \<Longrightarrow>
     turn p tt d i = Inr (e, p', tt', d', i')"
proof (induction clock arbitrary: tt d i)
  case Nil
  then show ?case by (simp add: timed_turn.simps)
next
  case (Cons t ts)
  from Cons.prems(1) show ?case
  proof (cases rule: timed_turn_cases)
    case timeout
    with Cons.prems(2) show ?thesis by simp
  next
    case (bust i0 rs)
    then show ?thesis by (auto simp: turn_roll)
  next
    case (roll i0 r rs)
    from Cons.IH[OF roll(5) Cons.prems(2)] roll(2,3,4) show ?thesis by (auto simp: turn_roll)
  next
    case (hold i0)
    then show ?thesis by (auto simp: turn_hold)
  qed
qed

text \<open>The win checks of a timed game are the first win checks of the untimed game.\<close>

lemma timed_play_prefix:
  assumes "wf_game (game tg)"
  shows "\<exists>h'. fst (play (game tg) inputs) = fst (TimedGameProxy_play tg inputs clock) @ h'"
  using assms
proof (induction tg inputs clock rule: timed_play_induct_wf)
  case (turn tg inputs clock)
  note wf = turn.hyps
  let ?g = "game tg"
  let ?k = "nat (current_player ?g)"
  show ?case
  proof (cases clock)
    case Nil
    then show ?thesis by (simp add: timed_play_Nil)
  next
    case (Cons t ts)
    show ?thesis
    proof (cases "60 \<le> t - start_time tg")
      case True
      with Cons show ?thesis by (simp add: timed_play_unfold[OF wf])
    next
      case late: False
      show ?thesis
      proof (cases "timed_turn (start_time tg) (players ?g ! ?k) 0 (die ?g) inputs ts")
        case (Inl err)
        with Cons late show ?thesis by (simp add: timed_play_unfold[OF wf])
      next
        case (Inr x)
        obtain e p tt d i ts' where x: "x = (e, p, tt, d, i, ts')" by (cases x)
        show ?thesis
        proof (cases "e = TimedOut")
          case True
          with Cons late Inr x show ?thesis by (simp add: timed_play_unfold[OF wf])
        next
          case nt: False
          note tu = timed_turn_is_turn[OF Inr[unfolded x] nt]
          let ?g' = "after_turn ?g p d"
          show ?thesis
          proof (cases "100 \<le> score p")
            case True
            with Cons late Inr x nt tu show ?thesis
              by (simp add: timed_play_unfold[OF wf] play_unfold[OF wf])
          next
            case False
            let ?tg' = "tg\<lparr>game := switch_turn ?g'\<rparr>"
            from turn.IH[OF Cons late Inr[unfolded x] nt False] obtain h' where
              "fst (play (switch_turn ?g') i) = fst (TimedGameProxy_play ?tg' i ts') @ h'"
              by auto
            with Cons late Inr x nt tu False show ?thesis
              by (auto simp: timed_play_unfold[OF wf] play_unfold[OF wf] split: prod.splits)
          qed
        qed
      qed
    qed
  qed
qed

text \<open>A timed game that a player wins is the untimed game.\<close>

lemma timed_play_win:
  assumes "wf_game (game tg)"
    "TimedGameProxy_play tg inputs clock = (h, Inr (Wins n s, tg', i', c'))"
  shows "play (game tg) inputs = (h, Inr (Wins n s, game tg', i'))"
  using assms
proof (induction tg inputs clock arbitrary: h rule: timed_play_induct_wf)
  case (turn tg inputs clock)
  note wf = turn.hyps
  let ?g = "game tg"
  let ?k = "nat (current_player ?g)"
  show ?case
  proof (cases clock)
    case Nil
    with turn.prems show ?thesis by (simp add: timed_play_Nil)
  next
    case (Cons t ts)
    show ?thesis
    proof (cases "60 \<le> t - start_time tg")
      case True
      from determine_winner_wf[OF wf] obtain w0 where
        "determine_winner ?g = Inr w0" "\<forall>n s. w0 \<noteq> Wins n s" by blast
      with turn.prems Cons True show ?thesis by (simp add: timed_play_unfold[OF wf])
    next
      case late: False
      show ?thesis
      proof (cases "timed_turn (start_time tg) (players ?g ! ?k) 0 (die ?g) inputs ts")
        case (Inl err)
        with turn.prems Cons late show ?thesis by (simp add: timed_play_unfold[OF wf])
      next
        case (Inr x)
        obtain e p tt d i ts' where x: "x = (e, p, tt, d, i, ts')" by (cases x)
        let ?g' = "after_turn ?g p d"
        show ?thesis
        proof (cases "e = TimedOut")
          case True
          have "wf_game ?g'" using wf by (simp add: wf_game_def after_turn_def)
          from determine_winner_wf[OF this] obtain w0 where
            "determine_winner ?g' = Inr w0" "\<forall>n s. w0 \<noteq> Wins n s" by blast
          with turn.prems Cons late Inr x True show ?thesis
            by (simp add: timed_play_unfold[OF wf])
        next
          case nt: False
          note tu = timed_turn_is_turn[OF Inr[unfolded x] nt]
          show ?thesis
          proof (cases "100 \<le> score p")
            case True
            with turn.prems Cons late Inr x nt tu show ?thesis
              by (auto simp: timed_play_unfold[OF wf] play_unfold[OF wf])
          next
            case False
            let ?tg' = "tg\<lparr>game := switch_turn ?g'\<rparr>"
            obtain h' res' where p': "TimedGameProxy_play ?tg' i ts' = (h', res')"
              by (cases "TimedGameProxy_play ?tg' i ts'")
            with turn.prems Cons late Inr x nt False
            have h: "h = (e, ?g') # h'" and r: "res' = Inr (Wins n s, tg', i', c')"
              by (simp_all add: timed_play_unfold[OF wf])
            from turn.IH[OF Cons late Inr[unfolded x] nt False p'[unfolded r]]
            have "play (switch_turn ?g') i = (h', Inr (Wins n s, game tg', i'))" by simp
            with tu False h show ?thesis by (simp add: play_unfold[OF wf])
          qed
        qed
      qed
    qed
  qed
qed


text \<open>
  A turn of the untimed loop is the turn of the timed loop when the clock has readings
  below 60 seconds for every decision: one more than the rolls that the turn uses.
\<close>

lemma turn_to_timed:
  assumes "turn p tt d i = Inr (e, p', tt', d', i')" "\<forall>x \<in> set pre. x - st < 60"
    "length d - length d' < length pre"
  shows "\<exists>u pre'. pre = u @ pre' \<and> u \<noteq> [] \<and> length u \<le> length d - length d' + 1
     \<and> timed_turn st p tt d i (pre @ post) = Inr (e, p', tt', d', i', pre' @ post)"
  using assms
proof (induction d arbitrary: tt i pre)
  case Nil
  from Nil.prems(3) obtain x pre1 where pre: "pre = x # pre1" by (cases pre) auto
  with Nil.prems(2) have x: "\<not> 60 \<le> x - st" by auto
  show ?case
  proof (cases "decide p tt i")
    case (Inl err)
    with Nil.prems(1) show ?thesis by (simp add: turn.simps)
  next
    case (Inr ci)
    obtain c i0 where ci: "ci = (c, i0)" by (cases ci)
    show ?thesis
    proof (cases c)
      case Roll
      with Nil.prems(1) Inr ci show ?thesis by (simp add: turn.simps)
    next
      case Hold
      with Nil.prems(1) Inr ci have r: "e = Held" "p' = add_score p tt" "tt' = tt" "d' = []" "i' = i0"
        by (auto simp: turn_hold)
      from Hold Inr ci x have "timed_turn st p tt [] i ((x # pre1) @ post)
          = Inr (Held, add_score p tt, tt, [], i0, pre1 @ post)"
        by (simp add: timed_turn_early)
      with r pre have "pre = [x] @ pre1 \<and> [x] \<noteq> [] \<and> length [x] \<le> length ([]::int list) - length d' + 1
         \<and> timed_turn st p tt [] i (pre @ post) = Inr (e, p', tt', d', i', pre1 @ post)"
        by simp
      then show ?thesis by blast
    qed
  qed
next
  case (Cons r rs)
  from Cons.prems(3) obtain x pre1 where pre: "pre = x # pre1" by (cases pre) auto
  with Cons.prems(2) have x: "\<not> 60 \<le> x - st" and pre1: "\<forall>x \<in> set pre1. x - st < 60" by auto
  show ?case
  proof (cases "decide p tt i")
    case (Inl err)
    with Cons.prems(1) show ?thesis by (simp add: turn.simps)
  next
    case (Inr ci)
    obtain c i0 where ci: "ci = (c, i0)" by (cases ci)
    show ?thesis
    proof (cases c)
      case Roll
      with Inr ci have dr: "decide p tt i = Inr (Roll, i0)" by simp
      show ?thesis
      proof (cases "r = 1")
        case True
        with Cons.prems(1) dr have res: "e = Busted" "p' = p" "tt' = 0" "d' = rs" "i' = i0"
          by (auto simp: turn_roll)
        from True dr x have "timed_turn st p tt (r # rs) i ((x # pre1) @ post)
            = Inr (Busted, p, 0, rs, i0, pre1 @ post)"
          by (simp add: timed_turn_early)
        with res pre have "pre = [x] @ pre1 \<and> [x] \<noteq> []
           \<and> length [x] \<le> length (r # rs) - length d' + 1
           \<and> timed_turn st p tt (r # rs) i (pre @ post) = Inr (e, p', tt', d', i', pre1 @ post)"
          by simp
        then show ?thesis by blast
      next
        case False
        with Cons.prems(1) dr have t: "turn p (tt + r) rs i0 = Inr (e, p', tt', d', i')"
          by (simp add: turn_roll)
        from turn_length[OF t] have le: "length d' \<le> length rs" by simp
        with Cons.prems(3) pre have "length rs - length d' < length pre1" by simp
        from Cons.IH[OF t pre1 this] obtain u pre' where
          u: "pre1 = u @ pre'" "u \<noteq> []" "length u \<le> length rs - length d' + 1"
            "timed_turn st p (tt + r) rs i0 (pre1 @ post) = Inr (e, p', tt', d', i', pre' @ post)"
          by blast
        from False dr x have "timed_turn st p tt (r # rs) i ((x # pre1) @ post)
            = timed_turn st p (tt + r) rs i0 (pre1 @ post)"
          by (simp add: timed_turn_early)
        with u pre le have "pre = (x # u) @ pre' \<and> x # u \<noteq> []
           \<and> length (x # u) \<le> length (r # rs) - length d' + 1
           \<and> timed_turn st p tt (r # rs) i (pre @ post) = Inr (e, p', tt', d', i', pre' @ post)"
          by simp
        then show ?thesis by blast
      qed
    next
      case Hold
      with Cons.prems(1) Inr ci
      have res: "e = Held" "p' = add_score p tt" "tt' = tt" "d' = r # rs" "i' = i0"
        by (auto simp: turn_hold)
      from Hold Inr ci x have "timed_turn st p tt (r # rs) i ((x # pre1) @ post)
          = Inr (Held, add_score p tt, tt, r # rs, i0, pre1 @ post)"
        by (simp add: timed_turn_early)
      with res pre have "pre = [x] @ pre1 \<and> [x] \<noteq> []
         \<and> length [x] \<le> length (r # rs) - length d' + 1
         \<and> timed_turn st p tt (r # rs) i (pre @ post) = Inr (e, p', tt', d', i', pre1 @ post)"
        by simp
      then show ?thesis by blast
    qed
  qed
qed

text \<open>
  An untimed game that returns is the timed game when the clock has enough readings
  below 60 seconds: two for each turn and one for each roll are enough.
\<close>

lemma play_to_timed:
  assumes "wf_game g" "play g inputs = (h, Inr (w, g', rest))"
    "\<forall>x \<in> set pre. x - st < 60" "2 * length h + length (die g) \<le> length pre"
  shows "\<exists>c'. TimedGameProxy_play \<lparr>game = g, start_time = st\<rparr> inputs (pre @ post)
       = (h, Inr (w, \<lparr>game = g', start_time = st\<rparr>, rest, c'))"
  using assms
proof (induction g inputs arbitrary: h pre rule: play_induct_wf)
  case (turn g inputs)
  note wf = turn.hyps
  let ?k = "nat (current_player g)"
  let ?tg = "\<lparr>game = g, start_time = st\<rparr>"
  have wft: "wf_game (game ?tg)" using wf by simp
  show ?case
  proof (cases "turn (players g ! ?k) 0 (die g) inputs")
    case (Inl err)
    with turn.prems(1) show ?thesis by (simp add: play_unfold[OF wf])
  next
    case (Inr y)
    obtain e p tt d i where y: "y = (e, p, tt, d, i)" by (cases y)
    note tu = Inr[unfolded y]
    from turn_end_cases[OF tu] have nt: "e \<noteq> TimedOut" by auto
    from turn_length[OF tu] have dl: "length d \<le> length (die g)" by simp
    let ?g' = "after_turn g p d"
    from turn.prems(1) tu have hne: "h \<noteq> []"
      by (auto simp: play_unfold[OF wf] split: if_splits prod.splits)
    with turn.prems(3) obtain x pre1 where pre: "pre = x # pre1" by (cases pre; cases h) auto
    with turn.prems(2) have x: "\<not> 60 \<le> x - st" and pre1: "\<forall>x \<in> set pre1. x - st < 60" by auto
    from hne turn.prems(3) pre dl have "length (die g) - length d < length pre1"
      by (cases h) auto
    from turn_to_timed[OF tu pre1 this, of post] obtain u pre' where
      u: "pre1 = u @ pre'" "u \<noteq> []" "length u \<le> length (die g) - length d + 1"
        "timed_turn st (players g ! ?k) 0 (die g) inputs (pre1 @ post)
           = Inr (e, p, tt, d, i, pre' @ post)"
      by blast
    show ?thesis
    proof (cases "100 \<le> score p")
      case True
      with turn.prems(1) tu have "h = [(e, ?g')]" "w = Wins (name p) (score p)" "g' = ?g'" "rest = i"
        by (auto simp: play_unfold[OF wf])
      with True u(4) x nt pre show ?thesis
        by (simp add: timed_play_unfold[OF wft])
    next
      case False
      obtain h' res' where p': "play (switch_turn ?g') i = (h', res')"
        by (cases "play (switch_turn ?g') i")
      with turn.prems(1) tu False have h: "h = (e, ?g') # h'" and r: "res' = Inr (w, g', rest)"
        by (auto simp: play_unfold[OF wf])
      have pre'': "\<forall>x \<in> set pre'. x - st < 60" using pre1 u(1) by auto
      have "2 * length h' + length (die (switch_turn ?g')) \<le> length pre'"
        using turn.prems(3) h pre u(1,3) dl by (simp add: switch_turn_def after_turn_def)
      from turn.IH[OF tu False p'[unfolded r] pre'' this] obtain c' where
        "TimedGameProxy_play \<lparr>game = switch_turn ?g', start_time = st\<rparr> i (pre' @ post)
           = (h', Inr (w, \<lparr>game = g', start_time = st\<rparr>, rest, c'))"
        by blast
      with False u(4) x nt pre h show ?thesis
        by (simp add: timed_play_unfold[OF wft])
    qed
  qed
qed

lemma PigGame_init_trace_result:
  "snd (PigGame_init_trace rng t1 t2) = PigGame_init rng t1 t2"
  by (simp add: PigGame_init_trace_def PigGame_init_def Let_def split: sum.splits)

lemma main_setup_short:
  "length inputs < 3 \<Longrightarrow> main_setup rng inputs clock = Inl EOFError"
  by (cases inputs; cases "tl inputs"; cases "tl (tl inputs)") (auto simp: main_setup_def)

section \<open>Properties\<close>

subsection \<open>The end of the untimed game\<close>



subsection \<open>Rolling\<close>

text \<open>
  C2: when the player chooses to roll and the die shows \<open>r\<close> from 2 to 6, the turn goes
  on from the turn total raised by exactly \<open>r\<close> (the player decides again there); when the
  die shows 1 the turn ends at once with turn total 0 and the player, so the score,
  unchanged. Over a whole turn: the rolls used are a prefix of the die; a turn that ends
  by a hold has rolled no 1 and its turn total has grown by the sum of the rolls; a turn
  that is busted ends at its first 1, with turn total 0 and the player unchanged.
\<close>

theorem roll_adds_or_busts:
  "(decide p turn_total inputs = Inr (Roll, inputs') \<longrightarrow>
      (r \<in> {2..6} \<longrightarrow> turn p turn_total (r # rs) inputs = turn p (turn_total + r) rs inputs')
      \<and> turn p turn_total (1 # rs) inputs = Inr (Busted, p, 0, rs, inputs')
      \<and> (case turn p turn_total (1 # rs) inputs of
            Inr (e, p', _) \<Rightarrow> score p' = score p | Inl _ \<Rightarrow> False))
   \<and> (turn p turn_total d inputs = Inr (e, p', tt', d', inputs'') \<longrightarrow>
        (\<exists>used. d = used @ d'
           \<and> (e = Held \<longrightarrow> 1 \<notin> set used \<and> tt' = turn_total + sum_list used)
           \<and> (e = Busted \<longrightarrow> (\<exists>us. used = us @ [1] \<and> 1 \<notin> set us) \<and> tt' = 0 \<and> p' = p)))"
proof (intro conjI impI)
  assume t: "turn p turn_total d inputs = Inr (e, p', tt', d', inputs'')"
  from turn_rolls[OF t] obtain used where u: "d = used @ d'"
    "e = Held \<longrightarrow> 1 \<notin> set used \<and> tt' = turn_total + sum_list used"
    "e = Busted \<longrightarrow> (\<exists>us. used = us @ [1] \<and> 1 \<notin> set us)" by blast
  from turn_end_cases[OF t] have "e = Busted \<longrightarrow> tt' = 0 \<and> p' = p" by auto
  with u have "d = used @ d'
           \<and> (e = Held \<longrightarrow> 1 \<notin> set used \<and> tt' = turn_total + sum_list used)
           \<and> (e = Busted \<longrightarrow> (\<exists>us. used = us @ [1] \<and> 1 \<notin> set us) \<and> tt' = 0 \<and> p' = p)"
    by blast
  then show "\<exists>used. d = used @ d'
           \<and> (e = Held \<longrightarrow> 1 \<notin> set used \<and> tt' = turn_total + sum_list used)
           \<and> (e = Busted \<longrightarrow> (\<exists>us. used = us @ [1] \<and> 1 \<notin> set us) \<and> tt' = 0 \<and> p' = p)"
    by blast
qed (simp_all add: turn_roll)

theorem roll_adds_or_busts_witness:
  "decide \<lparr>name = ''Player 1'', score = 40, kind = ComputerPlayer\<rparr> 7 [] = Inr (Roll, [])
   \<and> (5::int) \<in> {2..6}
   \<and> turn \<lparr>name = ''Player 1'', score = 40, kind = ComputerPlayer\<rparr> 7 [5, 1, 4] []
       = turn \<lparr>name = ''Player 1'', score = 40, kind = ComputerPlayer\<rparr> 12 [1, 4] []
   \<and> turn \<lparr>name = ''Player 1'', score = 40, kind = ComputerPlayer\<rparr> 7 [1, 4] []
       = Inr (Busted, \<lparr>name = ''Player 1'', score = 40, kind = ComputerPlayer\<rparr>, 0, [4], [])
   \<and> turn \<lparr>name = ''Player 1'', score = 40, kind = ComputerPlayer\<rparr> 7 [5, 1, 4] []
       = Inr (Busted, \<lparr>name = ''Player 1'', score = 40, kind = ComputerPlayer\<rparr>, 0, [4], [])
   \<and> (\<exists>used. [5, 1, 4] = used @ [4::int] \<and> (\<exists>us. used = us @ [1] \<and> 1 \<notin> set us))"
proof -
  have h: "decide \<lparr>name = ''Player 1'', score = 40, kind = ComputerPlayer\<rparr> 7 [] = Inr (Roll, [])"
    by (simp add: decide_def ComputerPlayer_decide_def)
  have t: "turn \<lparr>name = ''Player 1'', score = 40, kind = ComputerPlayer\<rparr> 7 [5, 1, 4] []
       = Inr (Busted, \<lparr>name = ''Player 1'', score = 40, kind = ComputerPlayer\<rparr>, 0, [4], [])"
    by (simp add: turn.simps decide_def ComputerPlayer_decide_def)
  show ?thesis
    using h t
      roll_adds_or_busts
        [where p = "\<lparr>name = ''Player 1'', score = 40, kind = ComputerPlayer\<rparr>"
           and turn_total = 7 and inputs = "[]" and inputs' = "[]" and r = 5 and rs = "[1, 4]"
           and d = "[5, 1, 4]" and e = Busted
           and p' = "\<lparr>name = ''Player 1'', score = 40, kind = ComputerPlayer\<rparr>"
           and tt' = 0 and d' = "[4]" and inputs'' = "[]"]
      roll_adds_or_busts
        [where p = "\<lparr>name = ''Player 1'', score = 40, kind = ComputerPlayer\<rparr>"
           and turn_total = 7 and inputs = "[]" and inputs' = "[]" and r = 5 and rs = "[4]"
           and d = "[]" and e = Held
           and p' = "\<lparr>name = ''Player 1'', score = 40, kind = ComputerPlayer\<rparr>"
           and tt' = 0 and d' = "[4]" and inputs'' = "[]"]
    by simp
qed

subsection \<open>Holding\<close>

text \<open>
  C3: when the player holds, the turn ends with the whole turn total added to the
  player's score; more generally a turn that ends by a hold has added its final turn total
  and nothing else. When the score stays below 100 the game goes on with the other
  player, and every turn of \<open>play\<close> is a run of the inner loop from turn total 0.
\<close>

theorem hold_adds_turn_total:
  "(decide p turn_total inputs = Inr (Hold, inputs') \<longrightarrow>
      turn p turn_total d inputs = Inr (Held, add_score p turn_total, turn_total, d, inputs')
      \<and> score (add_score p turn_total) = score p + turn_total)
   \<and> (turn p turn_total d inputs = Inr (Held, p', tt', d', inputs') \<longrightarrow>
        score p' = score p + tt')
   \<and> (length (players g) = 2 \<and> (current_player g = 0 \<or> current_player g = 1)
        \<and> turn (players g ! nat (current_player g)) 0 (die g) inputs = Inr (Held, p', tt', d', inputs')
        \<and> score p' < 100 \<longrightarrow>
        play g inputs =
          (let g' = g\<lparr>die := d', players := (players g)[nat (current_player g) := p']\<rparr>
           in case play (switch_turn g') inputs' of (h, res) \<Rightarrow> ((Held, g') # h, res)))
   \<and> (length (players g) = 2 \<and> (current_player g = 0 \<or> current_player g = 1)
        \<and> fst (play g inputs) \<noteq> [] \<longrightarrow>
        (\<exists>e p tt d i. turn (players g ! nat (current_player g)) 0 (die g) inputs = Inr (e, p, tt, d, i)
           \<and> hd (fst (play g inputs))
               = (e, g\<lparr>die := d, players := (players g)[nat (current_player g) := p]\<rparr>)))"
proof (intro conjI impI)
  assume "decide p turn_total inputs = Inr (Hold, inputs')"
  then show "turn p turn_total d inputs = Inr (Held, add_score p turn_total, turn_total, d, inputs')"
    by (rule turn_hold)
next
  show "score (add_score p turn_total) = score p + turn_total"
    by (simp add: add_score_def)
next
  assume "turn p turn_total d inputs = Inr (Held, p', tt', d', inputs')"
  from turn_end_cases[OF this] show "score p' = score p + tt'"
    by (auto simp: add_score_def)
next
  assume a: "length (players g) = 2 \<and> (current_player g = 0 \<or> current_player g = 1)
        \<and> turn (players g ! nat (current_player g)) 0 (die g) inputs = Inr (Held, p', tt', d', inputs')
        \<and> score p' < 100"
  then have "py_index (length (players g)) (current_player g) = Some (nat (current_player g))"
    by (intro py_index_two) auto
  moreover from a have "turn (players g ! nat (current_player g)) 0 (die g) inputs = Inr (Held, p', tt', d', inputs')"
    and "\<not> 100 \<le> score p'" by auto
  ultimately show "play g inputs =
          (let g' = g\<lparr>die := d', players := (players g)[nat (current_player g) := p']\<rparr>
           in case play (switch_turn g') inputs' of (h, res) \<Rightarrow> ((Held, g') # h, res))"
    by (subst play.simps) (simp add: Let_def)
next
  assume a: "length (players g) = 2 \<and> (current_player g = 0 \<or> current_player g = 1)
        \<and> fst (play g inputs) \<noteq> []"
  then have k: "py_index (length (players g)) (current_player g) = Some (nat (current_player g))"
    by (intro py_index_two) auto
  show "\<exists>e p tt d i. turn (players g ! nat (current_player g)) 0 (die g) inputs = Inr (e, p, tt, d, i)
           \<and> hd (fst (play g inputs))
               = (e, g\<lparr>die := d, players := (players g)[nat (current_player g) := p]\<rparr>)"
  proof (cases "turn (players g ! nat (current_player g)) 0 (die g) inputs")
    case (Inl e)
    have "fst (play g inputs) = []" by (subst play.simps) (simp add: k Inl)
    with a show ?thesis by simp
  next
    case (Inr x)
    obtain e p tt d i where x: "x = (e, p, tt, d, i)" by (cases x)
    have "hd (fst (play g inputs))
               = (e, g\<lparr>die := d, players := (players g)[nat (current_player g) := p]\<rparr>)"
      by (subst play.simps) (simp add: k Inr x Let_def split: prod.splits)
    with Inr x show ?thesis by blast
  qed
qed

theorem hold_adds_turn_total_witness:
  "decide \<lparr>name = ''Player 1'', score = 10, kind = ComputerPlayer\<rparr> 25 [] = Inr (Hold, [])
   \<and> turn \<lparr>name = ''Player 1'', score = 10, kind = ComputerPlayer\<rparr> 0 [5, 5, 5, 5, 5] []
       = Inr (Held, \<lparr>name = ''Player 1'', score = 35, kind = ComputerPlayer\<rparr>, 25, [], [])
   \<and> fst (play \<lparr>die = [5, 5, 5, 5, 5],
                 players = [\<lparr>name = ''Player 1'', score = 10, kind = ComputerPlayer\<rparr>,
                            \<lparr>name = ''Player 2'', score = 0, kind = ComputerPlayer\<rparr>],
                 current_player = 0\<rparr> [])
       = [(Held, \<lparr>die = [],
                 players = [\<lparr>name = ''Player 1'', score = 35, kind = ComputerPlayer\<rparr>,
                            \<lparr>name = ''Player 2'', score = 0, kind = ComputerPlayer\<rparr>],
                 current_player = 0\<rparr>)]"
proof -
  have h: "decide \<lparr>name = ''Player 1'', score = 10, kind = ComputerPlayer\<rparr> 25 [] = Inr (Hold, [])"
    by (simp add: decide_def ComputerPlayer_decide_def)
  have t: "turn \<lparr>name = ''Player 1'', score = 10, kind = ComputerPlayer\<rparr> 0 [5, 5, 5, 5, 5] []
       = Inr (Held, \<lparr>name = ''Player 1'', score = 35, kind = ComputerPlayer\<rparr>, 25, [], [])"
    by (simp add: turn.simps decide_def ComputerPlayer_decide_def add_score_def)
  have n: "play \<lparr>die = [],
                 players = [\<lparr>name = ''Player 1'', score = 35, kind = ComputerPlayer\<rparr>,
                            \<lparr>name = ''Player 2'', score = 0, kind = ComputerPlayer\<rparr>],
                 current_player = 1\<rparr> [] = ([], Inl StreamEnd)"
    by (simp add: play.simps py_index_def turn.simps decide_def ComputerPlayer_decide_def)
  show ?thesis
    using h t n
      hold_adds_turn_total
        [where p = "\<lparr>name = ''Player 1'', score = 10, kind = ComputerPlayer\<rparr>"
           and turn_total = 25 and inputs = "[]" and inputs' = "[]" and d = "[]"
           and p' = "\<lparr>name = ''Player 1'', score = 35, kind = ComputerPlayer\<rparr>"
           and tt' = 25 and d' = "[]"
           and g = "\<lparr>die = [5, 5, 5, 5, 5],
                 players = [\<lparr>name = ''Player 1'', score = 10, kind = ComputerPlayer\<rparr>,
                            \<lparr>name = ''Player 2'', score = 0, kind = ComputerPlayer\<rparr>],
                 current_player = 0\<rparr>"]
    by (simp add: switch_turn_def)
qed

subsection \<open>The computer's strategy\<close>

text \<open>
  C4: \<^verbatim>\<open>ComputerPlayer.decide\<close> is a function of the player's own score and the turn
  total alone: it reads no input line, and two computer players with the same score
  decide alike. It holds if and only if the turn total is at least
  \<open>min 25 (100 - score)\<close> and rolls otherwise; with score 0 it holds exactly from a turn
  total of 25, with score 85 exactly from 15.
\<close>

theorem ComputerPlayer_decide_threshold:
  "(kind p = ComputerPlayer \<longrightarrow>
      decide p turn_total inputs =
        Inr (if turn_total \<ge> min 25 (100 - score p) then Hold else Roll, inputs))
   \<and> (score p = score q \<longrightarrow>
        ComputerPlayer_decide p turn_total = ComputerPlayer_decide q turn_total)
   \<and> (ComputerPlayer_decide p turn_total = Hold \<longleftrightarrow> turn_total \<ge> min 25 (100 - score p))
   \<and> (ComputerPlayer_decide p turn_total = Roll \<longleftrightarrow> \<not> turn_total \<ge> min 25 (100 - score p))
   \<and> (score p = 0 \<longrightarrow> (ComputerPlayer_decide p turn_total = Hold \<longleftrightarrow> turn_total \<ge> 25))
   \<and> (score p = 85 \<longrightarrow> (ComputerPlayer_decide p turn_total = Hold \<longleftrightarrow> turn_total \<ge> 15))"
  by (simp add: decide_def ComputerPlayer_decide_def)

theorem ComputerPlayer_decide_threshold_witness:
  "decide \<lparr>name = ''Player 2'', score = 85, kind = ComputerPlayer\<rparr> 15 [''r''] = Inr (Hold, [''r''])
   \<and> decide \<lparr>name = ''Player 2'', score = 85, kind = ComputerPlayer\<rparr> 14 [''r''] = Inr (Roll, [''r''])
   \<and> ComputerPlayer_decide \<lparr>name = ''Player 1'', score = 0, kind = ComputerPlayer\<rparr> 25 = Hold
   \<and> ComputerPlayer_decide \<lparr>name = ''Player 1'', score = 0, kind = ComputerPlayer\<rparr> 24 = Roll"
  using ComputerPlayer_decide_threshold
          [of "\<lparr>name = ''Player 2'', score = 85, kind = ComputerPlayer\<rparr>" 15 "[''r'']"
              "\<lparr>name = ''Player 2'', score = 85, kind = ComputerPlayer\<rparr>"]
        ComputerPlayer_decide_threshold
          [of "\<lparr>name = ''Player 2'', score = 85, kind = ComputerPlayer\<rparr>" 14 "[''r'']"
              "\<lparr>name = ''Player 2'', score = 85, kind = ComputerPlayer\<rparr>"]
        ComputerPlayer_decide_threshold
          [of "\<lparr>name = ''Player 1'', score = 0, kind = ComputerPlayer\<rparr>" 25 "[]"
              "\<lparr>name = ''Player 1'', score = 0, kind = ComputerPlayer\<rparr>"]
        ComputerPlayer_decide_threshold
          [of "\<lparr>name = ''Player 1'', score = 0, kind = ComputerPlayer\<rparr>" 24 "[]"
              "\<lparr>name = ''Player 1'', score = 0, kind = ComputerPlayer\<rparr>"]
  by simp

subsection \<open>The timed game\<close>

text \<open>
  C5: the timed loop reads the clock at the start of each turn and before each decision
  (the equation of one pass of the loop is part of the statement). A timed game that
  returns has read the clock readings \<open>rd\<close>, all but the last of which show less than 60
  seconds: when the last one shows 60 seconds or more the announcement is that of
  \<open>determine_winner\<close> on the final game, whose players are those of the last win check
  (of the start when there was none), so a turn total in progress is dropped; otherwise a
  player has won with 100 or more. A reading of 60 seconds or more ends the game at the
  start of a turn, and ends a turn before the decision whatever the turn total is, with
  the player unchanged. \<open>determine_winner\<close> names the player with the strictly higher
  score, and announces a tie for equal scores. And the game does return: when the clock
  shows 60 seconds or more at the reading \<open>t\<close>, after the readings \<open>pre\<close> that show less,
  and the die has a roll for each of these, the game ends at \<open>t\<close> by the clock with the
  readings \<open>post\<close> after \<open>t\<close> unread, unless a player has won before or a human player's
  input has ended.
\<close>

theorem timed_game_stops_at_60:
  "(wf_game (game tg) \<and> TimedGameProxy_play tg inputs clock = (h, Inr (w, tg', inputs', clock')) \<longrightarrow>
      (\<exists>rd. clock = rd @ clock' \<and> rd \<noteq> []
         \<and> (\<forall>t \<in> set (butlast rd). t - start_time tg < 60)
         \<and> (if 60 \<le> last rd - start_time tg
            then determine_winner (game tg') = Inr w \<and> (\<forall>n s. w \<noteq> Wins n s)
                 \<and> players (game tg')
                     = (if h = [] then players (game tg) else players (snd (last h)))
            else \<exists>n s. w = Wins n s \<and> 100 \<le> s)))
   \<and> (wf_game (game tg) \<and> 60 \<le> t - start_time tg \<longrightarrow>
        TimedGameProxy_play tg inputs (t # ts) =
          ([], case determine_winner (game tg) of
                 Inl e \<Rightarrow> Inl e
               | Inr w \<Rightarrow> Inr (w, tg, inputs, ts)))
   \<and> (60 \<le> t - st \<longrightarrow>
        timed_turn st p turn_total d inputs (t # ts) = Inr (TimedOut, p, turn_total, d, inputs, ts))
   \<and> (players g = [p1, p2] \<longrightarrow>
        (score p1 > score p2 \<longrightarrow> determine_winner g = Inr (WinsOnTime (name p1) (score p1)))
        \<and> (score p2 > score p1 \<longrightarrow> determine_winner g = Inr (WinsOnTime (name p2) (score p2)))
        \<and> (score p1 = score p2 \<longrightarrow> determine_winner g = Inr Tie))
   \<and> (wf_game (game tg) \<and> (\<forall>x \<in> set pre. x - start_time tg < 60) \<and> 60 \<le> t - start_time tg
        \<and> length pre \<le> length (die (game tg))
        \<and> TimedGameProxy_play tg inputs (pre @ t # post) = (h, res) \<longrightarrow>
        (res = Inl EOFError \<and> \<not> all_computer (game tg))
        \<or> (\<exists>w tg' i'. res = Inr (w, tg', i', post) \<and> determine_winner (game tg') = Inr w
              \<and> (\<forall>n s. w \<noteq> Wins n s)
              \<and> players (game tg')
                  = (if h = [] then players (game tg) else players (snd (last h))))
        \<or> (\<exists>n s tg' i' c'. res = Inr (Wins n s, tg', i', c') \<and> 100 \<le> s
              \<and> length post < length c'))
   \<and> (wf_game (game tg) \<longrightarrow>
        TimedGameProxy_play tg inputs (t # ts) =
          (if 60 \<le> t - start_time tg
           then ([], case determine_winner (game tg) of
                       Inl e \<Rightarrow> Inl e
                     | Inr w \<Rightarrow> Inr (w, tg, inputs, ts))
           else
             (case timed_turn (start_time tg)
                     (players (game tg) ! nat (current_player (game tg))) 0
                     (die (game tg)) inputs ts of
                Inl e \<Rightarrow> ([], Inl e)
              | Inr (e, p, turn_total, d, inputs', ts') \<Rightarrow>
                  if e = TimedOut
                  then ([], case determine_winner (after_turn (game tg) p d) of
                              Inl e \<Rightarrow> Inl e
                            | Inr w \<Rightarrow>
                                Inr (w, tg\<lparr>game := after_turn (game tg) p d\<rparr>, inputs', ts'))
                  else if 100 \<le> score p
                  then ([(e, after_turn (game tg) p d)],
                        Inr (Wins (name p) (score p), tg\<lparr>game := after_turn (game tg) p d\<rparr>,
                             inputs', ts'))
                  else (case TimedGameProxy_play
                               (tg\<lparr>game := switch_turn (after_turn (game tg) p d)\<rparr>)
                               inputs' ts' of
                          (h, res) \<Rightarrow> ((e, after_turn (game tg) p d) # h, res)))))
   \<and> (\<not> 60 \<le> t - st \<longrightarrow>
        timed_turn st p turn_total d inputs (t # ts) =
          (case decide p turn_total inputs of
             Inl e \<Rightarrow> Inl e
           | Inr (Roll, i') \<Rightarrow>
               (case d of
                  [] \<Rightarrow> Inl StreamEnd
                | r # rs \<Rightarrow>
                    if r = 1 then Inr (Busted, p, 0, rs, i', ts)
                    else timed_turn st p (turn_total + r) rs i' ts)
           | Inr (Hold, i') \<Rightarrow> Inr (Held, add_score p turn_total, turn_total, d, i', ts)))"
proof (intro conjI impI)
  assume "wf_game (game tg) \<and> TimedGameProxy_play tg inputs clock = (h, Inr (w, tg', inputs', clock'))"
  then show "\<exists>rd. clock = rd @ clock' \<and> rd \<noteq> []
         \<and> (\<forall>t \<in> set (butlast rd). t - start_time tg < 60)
         \<and> (if 60 \<le> last rd - start_time tg
            then determine_winner (game tg') = Inr w \<and> (\<forall>n s. w \<noteq> Wins n s)
                 \<and> players (game tg')
                     = (if h = [] then players (game tg) else players (snd (last h)))
            else \<exists>n s. w = Wins n s \<and> 100 \<le> s)"
    using timed_play_clock[of tg inputs clock h w tg' inputs' clock'] by simp
next
  assume "wf_game (game tg) \<and> 60 \<le> t - start_time tg"
  then show "TimedGameProxy_play tg inputs (t # ts) =
          ([], case determine_winner (game tg) of
                 Inl e \<Rightarrow> Inl e
               | Inr w \<Rightarrow> Inr (w, tg, inputs, ts))"
    by (simp add: timed_play_unfold)
next
  assume "60 \<le> t - st"
  then show "timed_turn st p turn_total d inputs (t # ts)
      = Inr (TimedOut, p, turn_total, d, inputs, ts)"
    by (rule timed_turn_late)
next
  assume "wf_game (game tg) \<and> (\<forall>x \<in> set pre. x - start_time tg < 60) \<and> 60 \<le> t - start_time tg
        \<and> length pre \<le> length (die (game tg))
        \<and> TimedGameProxy_play tg inputs (pre @ t # post) = (h, res)"
  then show "(res = Inl EOFError \<and> \<not> all_computer (game tg))
        \<or> (\<exists>w tg' i'. res = Inr (w, tg', i', post) \<and> determine_winner (game tg') = Inr w
              \<and> (\<forall>n s. w \<noteq> Wins n s)
              \<and> players (game tg')
                  = (if h = [] then players (game tg) else players (snd (last h))))
        \<or> (\<exists>n s tg' i' c'. res = Inr (Wins n s, tg', i', c') \<and> 100 \<le> s
              \<and> length post < length c')"
    using timed_play_deadline[of tg pre t inputs post h res] by simp
next
  assume "wf_game (game tg)"
  then show "TimedGameProxy_play tg inputs (t # ts) =
          (if 60 \<le> t - start_time tg
           then ([], case determine_winner (game tg) of
                       Inl e \<Rightarrow> Inl e
                     | Inr w \<Rightarrow> Inr (w, tg, inputs, ts))
           else
             (case timed_turn (start_time tg)
                     (players (game tg) ! nat (current_player (game tg))) 0
                     (die (game tg)) inputs ts of
                Inl e \<Rightarrow> ([], Inl e)
              | Inr (e, p, turn_total, d, inputs', ts') \<Rightarrow>
                  if e = TimedOut
                  then ([], case determine_winner (after_turn (game tg) p d) of
                              Inl e \<Rightarrow> Inl e
                            | Inr w \<Rightarrow>
                                Inr (w, tg\<lparr>game := after_turn (game tg) p d\<rparr>, inputs', ts'))
                  else if 100 \<le> score p
                  then ([(e, after_turn (game tg) p d)],
                        Inr (Wins (name p) (score p), tg\<lparr>game := after_turn (game tg) p d\<rparr>,
                             inputs', ts'))
                  else (case TimedGameProxy_play
                               (tg\<lparr>game := switch_turn (after_turn (game tg) p d)\<rparr>)
                               inputs' ts' of
                          (h, res) \<Rightarrow> ((e, after_turn (game tg) p d) # h, res))))"
    by (rule timed_play_unfold)
next
  assume "\<not> 60 \<le> t - st"
  then show "timed_turn st p turn_total d inputs (t # ts) =
          (case decide p turn_total inputs of
             Inl e \<Rightarrow> Inl e
           | Inr (Roll, i') \<Rightarrow>
               (case d of
                  [] \<Rightarrow> Inl StreamEnd
                | r # rs \<Rightarrow>
                    if r = 1 then Inr (Busted, p, 0, rs, i', ts)
                    else timed_turn st p (turn_total + r) rs i' ts)
           | Inr (Hold, i') \<Rightarrow> Inr (Held, add_score p turn_total, turn_total, d, i', ts))"
    by (rule timed_turn_early)
qed (simp_all add: determine_winner_def)

theorem timed_game_stops_at_60_witness:
  "wf_game \<lparr>die = [6, 3],
            players = [\<lparr>name = ''Player 1'', score = 40, kind = ComputerPlayer\<rparr>,
                       \<lparr>name = ''Player 2'', score = 55, kind = ComputerPlayer\<rparr>],
            current_player = 0\<rparr>
   \<and> (1010::real) - 1000 < 60 \<and> (1020::real) - 1000 < 60 \<and> (60::real) \<le> 1061 - 1000
   \<and> length [1010, 1020::real] \<le> length [6, 3::int]
   \<and> TimedGameProxy_play
       \<lparr>game = \<lparr>die = [6, 3],
                 players = [\<lparr>name = ''Player 1'', score = 40, kind = ComputerPlayer\<rparr>,
                            \<lparr>name = ''Player 2'', score = 55, kind = ComputerPlayer\<rparr>],
                 current_player = 0\<rparr>,
        start_time = 1000\<rparr> [] ([1010, 1020] @ 1061 # [1062])
       = ([], Inr (WinsOnTime ''Player 2'' 55,
                   \<lparr>game = \<lparr>die = [3],
                             players = [\<lparr>name = ''Player 1'', score = 40, kind = ComputerPlayer\<rparr>,
                                        \<lparr>name = ''Player 2'', score = 55, kind = ComputerPlayer\<rparr>],
                             current_player = 0\<rparr>,
                    start_time = 1000\<rparr>, [], [1062]))
   \<and> determine_winner
       \<lparr>die = [3],
        players = [\<lparr>name = ''Player 1'', score = 40, kind = ComputerPlayer\<rparr>,
                   \<lparr>name = ''Player 2'', score = 55, kind = ComputerPlayer\<rparr>],
        current_player = 0\<rparr> = Inr (WinsOnTime ''Player 2'' 55)
   \<and> determine_winner
       \<lparr>die = [],
        players = [\<lparr>name = ''Player 1'', score = 30, kind = HumanPlayer\<rparr>,
                   \<lparr>name = ''Player 2'', score = 30, kind = ComputerPlayer\<rparr>],
        current_player = 1\<rparr> = Inr Tie
   \<and> timed_turn 1000 \<lparr>name = ''Player 1'', score = 40, kind = ComputerPlayer\<rparr> 6 [] [] [1061, 1062]
       = Inr (TimedOut, \<lparr>name = ''Player 1'', score = 40, kind = ComputerPlayer\<rparr>, 6, [], [], [1062])
   \<and> \<not> (60::real) \<le> 1020 - 1000
   \<and> timed_turn 1000 \<lparr>name = ''Player 1'', score = 40, kind = ComputerPlayer\<rparr> 6 [] [] [1020, 1062]
       = Inl StreamEnd"
proof -
  have e: "TimedGameProxy_play
       \<lparr>game = \<lparr>die = [6, 3],
                 players = [\<lparr>name = ''Player 1'', score = 40, kind = ComputerPlayer\<rparr>,
                            \<lparr>name = ''Player 2'', score = 55, kind = ComputerPlayer\<rparr>],
                 current_player = 0\<rparr>,
        start_time = 1000\<rparr> [] [1010, 1020, 1061, 1062]
       = ([], Inr (WinsOnTime ''Player 2'' 55,
                   \<lparr>game = \<lparr>die = [3],
                             players = [\<lparr>name = ''Player 1'', score = 40, kind = ComputerPlayer\<rparr>,
                                        \<lparr>name = ''Player 2'', score = 55, kind = ComputerPlayer\<rparr>],
                             current_player = 0\<rparr>,
                    start_time = 1000\<rparr>, [], [1062]))"
    by (simp add: TimedGameProxy_play.simps timed_turn.simps py_index_def decide_def
          ComputerPlayer_decide_def determine_winner_def Let_def)
  have d: "decide \<lparr>name = ''Player 1'', score = 40, kind = ComputerPlayer\<rparr> 6 [] = Inr (Roll, [])"
    by (simp add: decide_def ComputerPlayer_decide_def)
  note inst = timed_game_stops_at_60
        [where tg = "\<lparr>game = \<lparr>die = [6, 3],
                 players = [\<lparr>name = ''Player 1'', score = 40, kind = ComputerPlayer\<rparr>,
                            \<lparr>name = ''Player 2'', score = 55, kind = ComputerPlayer\<rparr>],
                 current_player = 0\<rparr>,
              start_time = 1000\<rparr>"
           and inputs = "[]" and clock = "[1010, 1020, 1061, 1062]" and h = "[]"
           and w = "WinsOnTime ''Player 2'' 55"
           and tg' = "\<lparr>game = \<lparr>die = [3],
                             players = [\<lparr>name = ''Player 1'', score = 40, kind = ComputerPlayer\<rparr>,
                                        \<lparr>name = ''Player 2'', score = 55, kind = ComputerPlayer\<rparr>],
                             current_player = 0\<rparr>,
                    start_time = 1000\<rparr>"
           and inputs' = "[]" and clock' = "[1062]"
           and g = "\<lparr>die = [],
              players = [\<lparr>name = ''Player 1'', score = 30, kind = HumanPlayer\<rparr>,
                         \<lparr>name = ''Player 2'', score = 30, kind = ComputerPlayer\<rparr>],
              current_player = 1\<rparr>"
           and ?p1.0 = "\<lparr>name = ''Player 1'', score = 30, kind = HumanPlayer\<rparr>"
           and ?p2.0 = "\<lparr>name = ''Player 2'', score = 30, kind = ComputerPlayer\<rparr>"
           and st = 1000 and ts = "[1062]"
           and p = "\<lparr>name = ''Player 1'', score = 40, kind = ComputerPlayer\<rparr>"
           and turn_total = 6 and d = "[]"
           and pre = "[1010, 1020]" and post = "[1062]"
           and res = "Inr (WinsOnTime ''Player 2'' 55,
                   \<lparr>game = \<lparr>die = [3],
                             players = [\<lparr>name = ''Player 1'', score = 40, kind = ComputerPlayer\<rparr>,
                                        \<lparr>name = ''Player 2'', score = 55, kind = ComputerPlayer\<rparr>],
                             current_player = 0\<rparr>,
                    start_time = 1000\<rparr>, [], [1062])"]
  show ?thesis
    using e d inst[where t = 1061] inst[where t = 1020]
    by (simp add: wf_game_def determine_winner_def)
qed

subsection \<open>The factory\<close>

text \<open>
  C6: \<open>create_player\<close> returns a human player for every casing of \<open>human\<close>, a computer
  player for every casing of \<open>computer\<close>, each with the given name and score 0, and fails
  with \<open>ValueError\<close> for every other label.
\<close>

theorem create_player_labels:
  "(casing_of ''human'' t \<longrightarrow>
      create_player t n = Inr \<lparr>name = n, score = 0, kind = HumanPlayer\<rparr>)
   \<and> (casing_of ''computer'' t \<longrightarrow>
        create_player t n = Inr \<lparr>name = n, score = 0, kind = ComputerPlayer\<rparr>)
   \<and> (\<not> casing_of ''human'' t \<and> \<not> casing_of ''computer'' t \<longrightarrow>
        create_player t n = Inl ValueError)"
proof -
  have "\<not> (casing_of ''human'' t \<and> casing_of ''computer'' t)"
  proof
    assume "casing_of ''human'' t \<and> casing_of ''computer'' t"
    then have "length t = length ''human''" "length t = length ''computer''"
      unfolding casing_of_def by (auto dest: list_all2_lengthD)
    then show False by simp
  qed
  then show ?thesis by (auto simp: create_player_cases)
qed

theorem create_player_labels_witness:
  "casing_of ''human'' ''HUMAN''
   \<and> create_player ''HUMAN'' ''A'' = Inr \<lparr>name = ''A'', score = 0, kind = HumanPlayer\<rparr>
   \<and> casing_of ''computer'' ''Computer''
   \<and> create_player ''Computer'' ''B'' = Inr \<lparr>name = ''B'', score = 0, kind = ComputerPlayer\<rparr>
   \<and> \<not> casing_of ''human'' ''alien'' \<and> \<not> casing_of ''computer'' ''alien''
   \<and> create_player ''alien'' ''C'' = Inl ValueError"
  using create_player_labels [of "''HUMAN''" "''A''"]
        create_player_labels [of "''Computer''" "''B''"]
        create_player_labels [of "''alien''" "''C''"]
  by (simp add: casing_of_def same_letter_def)

subsection \<open>Scores over a game\<close>

text \<open>
  C7: the constructor gives both players the score 0. In the untimed and in the timed
  loop, from a well-formed game whose die shows 1 to 6, every win check is a
  \<open>turn_step\<close> from the one before: no score has gone down, the list of players is
  unchanged unless the turn ended by a hold, and a hold changes it by \<open>add_score\<close> on
  the current player. Scores that are not negative at the start are never negative. The
  game that a run returns has the players of its last win check, so nothing else changes
  a score.
\<close>

theorem scores_only_grow_by_holds:
  "(PigGame_init rng t1 t2 = Inr g0 \<longrightarrow>
      wf_game g0 \<and> list_all (\<lambda>p. score p = 0) (players g0) \<and> die g0 = rng 0)
   \<and> (wf_game g \<and> set (die g) \<subseteq> {1..6} \<and> nonneg_scores (players g) \<longrightarrow>
        (play g inputs = (h, res) \<longrightarrow>
           score_steps (players g) h
           \<and> (\<forall>x \<in> set h. nonneg_scores (players (snd x)))
           \<and> (case res of
                 Inl err \<Rightarrow> True
               | Inr (w, g', rest) \<Rightarrow> h \<noteq> [] \<and> g' = snd (last h)))
        \<and> (TimedGameProxy_play \<lparr>game = g, start_time = st\<rparr> inputs clock = (h2, res2) \<longrightarrow>
           score_steps (players g) h2
           \<and> (\<forall>x \<in> set h2. nonneg_scores (players (snd x)))
           \<and> (case res2 of
                 Inl err \<Rightarrow> True
               | Inr (w, tg', rest) \<Rightarrow>
                   players (game tg') = (if h2 = [] then players g else players (snd (last h2))))))"
proof (intro conjI impI)
  assume "PigGame_init rng t1 t2 = Inr g0"
  note i = PigGame_init_wf[OF this] PigGame_init_fields[OF this]
  from i(1) show "wf_game g0" and "list_all (\<lambda>p. score p = 0) (players g0)" by simp_all
  from i(2) show "die g0 = rng 0" by auto
next
  assume a: "wf_game g \<and> set (die g) \<subseteq> {1..6} \<and> nonneg_scores (players g)"
    and p: "play g inputs = (h, res)"
  from a p have s: "score_steps (players g) h
     \<and> (case res of Inl err \<Rightarrow> True | Inr (w, g', rest) \<Rightarrow> h \<noteq> [] \<and> g' = snd (last h))"
    by (intro play_scores) simp_all
  then show "score_steps (players g) h"
    and "case res of Inl err \<Rightarrow> True | Inr (w, g', rest) \<Rightarrow> h \<noteq> [] \<and> g' = snd (last h)"
    by simp_all
  from s a show "\<forall>x \<in> set h. nonneg_scores (players (snd x))"
    using score_steps_nonneg[of "players g" h] by simp
next
  assume a: "wf_game g \<and> set (die g) \<subseteq> {1..6} \<and> nonneg_scores (players g)"
    and p: "TimedGameProxy_play \<lparr>game = g, start_time = st\<rparr> inputs clock = (h2, res2)"
  from a have "wf_game (game \<lparr>game = g, start_time = st\<rparr>)"
    "set (die (game \<lparr>game = g, start_time = st\<rparr>)) \<subseteq> {1..6}" by simp_all
  from timed_play_scores[OF this p]
  have s: "score_steps (players g) h2"
    "case res2 of
       Inl err \<Rightarrow> True
     | Inr (w, tg', rest) \<Rightarrow>
         players (game tg') = (if h2 = [] then players g else players (snd (last h2)))"
    by (auto split: sum.splits)
  then show "score_steps (players g) h2"
    and "case res2 of
       Inl err \<Rightarrow> True
     | Inr (w, tg', rest) \<Rightarrow>
         players (game tg') = (if h2 = [] then players g else players (snd (last h2)))"
    by simp_all
  from s(1) a show "\<forall>x \<in> set h2. nonneg_scores (players (snd x))"
    using score_steps_nonneg[of "players g" h2] by simp
qed

theorem scores_only_grow_by_holds_witness:
  "PigGame_init (\<lambda>s. [6, 6, 6, 6, 6, 1]) ''Computer'' ''computer''
       = Inr \<lparr>die = [6, 6, 6, 6, 6, 1],
              players = [\<lparr>name = ''Player 1'', score = 0, kind = ComputerPlayer\<rparr>,
                         \<lparr>name = ''Player 2'', score = 0, kind = ComputerPlayer\<rparr>],
              current_player = 0\<rparr>
   \<and> set [6, 6, 6, 6, 6, 1] \<subseteq> {1..6::int}
   \<and> play \<lparr>die = [6, 6, 6, 6, 6, 1],
           players = [\<lparr>name = ''Player 1'', score = 0, kind = ComputerPlayer\<rparr>,
                      \<lparr>name = ''Player 2'', score = 0, kind = ComputerPlayer\<rparr>],
           current_player = 0\<rparr> []
       = ([(Held, \<lparr>die = [1],
                   players = [\<lparr>name = ''Player 1'', score = 30, kind = ComputerPlayer\<rparr>,
                              \<lparr>name = ''Player 2'', score = 0, kind = ComputerPlayer\<rparr>],
                   current_player = 0\<rparr>),
           (Busted, \<lparr>die = [],
                     players = [\<lparr>name = ''Player 1'', score = 30, kind = ComputerPlayer\<rparr>,
                                \<lparr>name = ''Player 2'', score = 0, kind = ComputerPlayer\<rparr>],
                     current_player = 1\<rparr>)],
          Inl StreamEnd)
   \<and> TimedGameProxy_play
        \<lparr>game = \<lparr>die = [6, 6, 6, 6, 6, 1],
                  players = [\<lparr>name = ''Player 1'', score = 0, kind = ComputerPlayer\<rparr>,
                             \<lparr>name = ''Player 2'', score = 0, kind = ComputerPlayer\<rparr>],
                  current_player = 0\<rparr>,
         start_time = 5\<rparr> [] [6, 7, 8, 70]
       = ([], Inr (Tie,
                   \<lparr>game = \<lparr>die = [6, 6, 6, 1],
                             players = [\<lparr>name = ''Player 1'', score = 0, kind = ComputerPlayer\<rparr>,
                                        \<lparr>name = ''Player 2'', score = 0, kind = ComputerPlayer\<rparr>],
                             current_player = 0\<rparr>,
                    start_time = 5\<rparr>, [], []))
   \<and> score_steps [\<lparr>name = ''Player 1'', score = 0, kind = ComputerPlayer\<rparr>,
                   \<lparr>name = ''Player 2'', score = 0, kind = ComputerPlayer\<rparr>]
        [(Held, \<lparr>die = [1],
                 players = [\<lparr>name = ''Player 1'', score = 30, kind = ComputerPlayer\<rparr>,
                            \<lparr>name = ''Player 2'', score = 0, kind = ComputerPlayer\<rparr>],
                 current_player = 0\<rparr>),
         (Busted, \<lparr>die = [],
                   players = [\<lparr>name = ''Player 1'', score = 30, kind = ComputerPlayer\<rparr>,
                              \<lparr>name = ''Player 2'', score = 0, kind = ComputerPlayer\<rparr>],
                   current_player = 1\<rparr>)]"
proof -
  have i: "PigGame_init (\<lambda>s. [6, 6, 6, 6, 6, 1]) ''Computer'' ''computer''
       = Inr \<lparr>die = [6, 6, 6, 6, 6, 1],
              players = [\<lparr>name = ''Player 1'', score = 0, kind = ComputerPlayer\<rparr>,
                         \<lparr>name = ''Player 2'', score = 0, kind = ComputerPlayer\<rparr>],
              current_player = 0\<rparr>"
    by code_simp
  have e: "play \<lparr>die = [6, 6, 6, 6, 6, 1],
           players = [\<lparr>name = ''Player 1'', score = 0, kind = ComputerPlayer\<rparr>,
                      \<lparr>name = ''Player 2'', score = 0, kind = ComputerPlayer\<rparr>],
           current_player = 0\<rparr> []
       = ([(Held, \<lparr>die = [1],
                   players = [\<lparr>name = ''Player 1'', score = 30, kind = ComputerPlayer\<rparr>,
                              \<lparr>name = ''Player 2'', score = 0, kind = ComputerPlayer\<rparr>],
                   current_player = 0\<rparr>),
           (Busted, \<lparr>die = [],
                     players = [\<lparr>name = ''Player 1'', score = 30, kind = ComputerPlayer\<rparr>,
                                \<lparr>name = ''Player 2'', score = 0, kind = ComputerPlayer\<rparr>],
                     current_player = 1\<rparr>)],
          Inl StreamEnd)"
    by (simp add: play.simps turn.simps py_index_def decide_def ComputerPlayer_decide_def
          add_score_def switch_turn_def Let_def)
  have t: "TimedGameProxy_play
        \<lparr>game = \<lparr>die = [6, 6, 6, 6, 6, 1],
                  players = [\<lparr>name = ''Player 1'', score = 0, kind = ComputerPlayer\<rparr>,
                             \<lparr>name = ''Player 2'', score = 0, kind = ComputerPlayer\<rparr>],
                  current_player = 0\<rparr>,
         start_time = 5\<rparr> [] [6, 7, 8, 70]
       = ([], Inr (Tie,
                   \<lparr>game = \<lparr>die = [6, 6, 6, 1],
                             players = [\<lparr>name = ''Player 1'', score = 0, kind = ComputerPlayer\<rparr>,
                                        \<lparr>name = ''Player 2'', score = 0, kind = ComputerPlayer\<rparr>],
                             current_player = 0\<rparr>,
                    start_time = 5\<rparr>, [], []))"
    by (simp add: TimedGameProxy_play.simps timed_turn.simps py_index_def decide_def
          ComputerPlayer_decide_def determine_winner_def Let_def)
  show ?thesis
    using i e t
      scores_only_grow_by_holds
        [where rng = "\<lambda>s. [6, 6, 6, 6, 6, 1]" and ?t1.0 = "''Computer''" and ?t2.0 = "''computer''"
           and ?g0.0 = "\<lparr>die = [6, 6, 6, 6, 6, 1],
              players = [\<lparr>name = ''Player 1'', score = 0, kind = ComputerPlayer\<rparr>,
                         \<lparr>name = ''Player 2'', score = 0, kind = ComputerPlayer\<rparr>],
              current_player = 0\<rparr>"
           and g = "\<lparr>die = [6, 6, 6, 6, 6, 1],
              players = [\<lparr>name = ''Player 1'', score = 0, kind = ComputerPlayer\<rparr>,
                         \<lparr>name = ''Player 2'', score = 0, kind = ComputerPlayer\<rparr>],
              current_player = 0\<rparr>"
           and inputs = "[]"
           and h = "[(Held, \<lparr>die = [1],
                   players = [\<lparr>name = ''Player 1'', score = 30, kind = ComputerPlayer\<rparr>,
                              \<lparr>name = ''Player 2'', score = 0, kind = ComputerPlayer\<rparr>],
                   current_player = 0\<rparr>),
           (Busted, \<lparr>die = [],
                     players = [\<lparr>name = ''Player 1'', score = 30, kind = ComputerPlayer\<rparr>,
                                \<lparr>name = ''Player 2'', score = 0, kind = ComputerPlayer\<rparr>],
                     current_player = 1\<rparr>)]"
           and res = "Inl StreamEnd" and st = 5 and clock = "[6, 7, 8, 70]" and ?h2.0 = "[]"
           and ?res2.0 = "Inr (Tie,
                   \<lparr>game = \<lparr>die = [6, 6, 6, 1],
                             players = [\<lparr>name = ''Player 1'', score = 0, kind = ComputerPlayer\<rparr>,
                                        \<lparr>name = ''Player 2'', score = 0, kind = ComputerPlayer\<rparr>],
                             current_player = 0\<rparr>,
                    start_time = 5\<rparr>, [], [])"]
    by (simp add: wf_game_def nonneg_scores_def)
qed

subsection \<open>Invalid labels\<close>

text \<open>
  C8, as it stands, fails: the failure does not come before any state of the game is
  made. With a bad second label the constructor has made the die, seeding the random
  module, and the first player when it fails with \<open>ValueError\<close>.
\<close>

theorem invalid_label_counterexample:
  "PigGame_init_trace example_rolls ''human'' ''alien''
     = ([Made_die [3, 4, 1, 6, 2],
         Made_player \<lparr>name = ''Player 1'', score = 0, kind = HumanPlayer\<rparr>],
        Inl ValueError)"
  by code_simp

text \<open>
  C8, amended: when one of the two labels is not a casing of \<open>human\<close> or \<open>computer\<close>,
  both constructors fail with \<open>ValueError\<close> and return no game (the timed one before it
  reads the clock), after the die has been made and, when only the second label is bad,
  the first player. \<open>main\<close>, which strips the two answers first, then ends with
  \<open>ValueError\<close> whatever the third answer, the remaining input, the die and the clock are,
  and no turn is taken. \<open>main\<close> looks at no label before it has read three answers: with
  fewer it ends with \<open>EOFError\<close>, whatever the labels are.
\<close>

theorem invalid_label_fails_after_die_is_made:
  "snd (PigGame_init_trace rng t1 t2) = PigGame_init rng t1 t2
   \<and> (\<not> valid_label t1 \<longrightarrow>
        PigGame_init_trace rng t1 t2 = ([Made_die (Die_init rng 0)], Inl ValueError))
   \<and> (valid_label t1 \<and> \<not> valid_label t2 \<longrightarrow>
        (\<exists>p1. create_player t1 ''Player 1'' = Inr p1
           \<and> PigGame_init_trace rng t1 t2
               = ([Made_die (Die_init rng 0), Made_player p1], Inl ValueError)))
   \<and> (\<not> valid_label t1 \<or> \<not> valid_label t2 \<longrightarrow>
        PigGame_init rng t1 t2 = Inl ValueError
        \<and> TimedGameProxy_init rng t1 t2 clock = Inl ValueError)
   \<and> (\<not> valid_label (strip l1) \<or> \<not> valid_label (strip l2) \<longrightarrow>
        main_setup rng (l1 # l2 # l3 # rest) clock = Inl ValueError
        \<and> main rng (l1 # l2 # l3 # rest) clock = ([], Inl ValueError))
   \<and> (length inputs < 3 \<longrightarrow>
        main_setup rng inputs clock = Inl EOFError
        \<and> main rng inputs clock = ([], Inl EOFError))"
proof (intro conjI impI)
  show "snd (PigGame_init_trace rng t1 t2) = PigGame_init rng t1 t2"
    by (rule PigGame_init_trace_result)
next
  assume "\<not> valid_label t1"
  then show "PigGame_init_trace rng t1 t2 = ([Made_die (Die_init rng 0)], Inl ValueError)"
    by (simp add: PigGame_init_trace_def create_player_cases valid_label_def Let_def)
next
  assume "valid_label t1 \<and> \<not> valid_label t2"
  then show "\<exists>p1. create_player t1 ''Player 1'' = Inr p1
           \<and> PigGame_init_trace rng t1 t2
               = ([Made_die (Die_init rng 0), Made_player p1], Inl ValueError)"
    by (auto simp: PigGame_init_trace_def create_player_cases valid_label_def Let_def)
next
  assume a: "\<not> valid_label t1 \<or> \<not> valid_label t2"
  then show i: "PigGame_init rng t1 t2 = Inl ValueError" by (rule PigGame_init_invalid)
  then show "TimedGameProxy_init rng t1 t2 clock = Inl ValueError"
    by (simp add: TimedGameProxy_init_def)
next
  assume a: "\<not> valid_label (strip l1) \<or> \<not> valid_label (strip l2)"
  then have "PigGame_init rng (lower (strip l1)) (lower (strip l2)) = Inl ValueError"
    by (intro PigGame_init_invalid) simp
  then show s: "main_setup rng (l1 # l2 # l3 # rest) clock = Inl ValueError"
    by (simp add: main_setup_def TimedGameProxy_init_def Let_def)
  then show "main rng (l1 # l2 # l3 # rest) clock = ([], Inl ValueError)"
    by (simp add: main_def)
next
  assume "length inputs < 3"
  then show s: "main_setup rng inputs clock = Inl EOFError" by (rule main_setup_short)
  then show "main rng inputs clock = ([], Inl EOFError)" by (simp add: main_def)
qed

theorem invalid_label_fails_after_die_is_made_witness:
  "\<not> valid_label ''alien'' \<and> valid_label ''human''
   \<and> PigGame_init_trace example_rolls ''alien'' ''human''
       = ([Made_die [3, 4, 1, 6, 2]], Inl ValueError)
   \<and> PigGame_init_trace example_rolls ''human'' ''alien''
       = ([Made_die [3, 4, 1, 6, 2],
           Made_player \<lparr>name = ''Player 1'', score = 0, kind = HumanPlayer\<rparr>],
          Inl ValueError)
   \<and> PigGame_init example_rolls ''human'' ''alien'' = Inl ValueError
   \<and> TimedGameProxy_init example_rolls ''human'' ''alien'' [0] = Inl ValueError
   \<and> \<not> valid_label (strip '' Alien '')
   \<and> main example_rolls ['' Alien '', ''computer'', ''yes'', ''r''] [0] = ([], Inl ValueError)
   \<and> length [''alien'', ''computer''] < 3
   \<and> main example_rolls [''alien'', ''computer''] [0] = ([], Inl EOFError)"
proof -
  have a: "\<not> valid_label ''alien''" "valid_label ''human''"
    by (simp_all add: valid_label_def casing_of_def same_letter_def)
  have b: "\<not> valid_label (strip '' Alien '')"
    by (simp add: valid_label_def casing_of_def same_letter_def strip_def isspace_def)
  have c: "create_player ''human'' ''Player 1''
      = Inr \<lparr>name = ''Player 1'', score = 0, kind = HumanPlayer\<rparr>"
    by (simp add: create_player_cases casing_of_def same_letter_def)
  have d: "Die_init example_rolls 0 = [3, 4, 1, 6, 2]"
    by (simp add: Die_init_def example_rolls_def)
  show ?thesis
    using a b c d
      invalid_label_fails_after_die_is_made
        [where ?t1.0 = "''alien''" and ?t2.0 = "''human''" and rng = example_rolls
           and clock = "[0]" and ?l1.0 = "'' Alien ''" and ?l2.0 = "''computer''"
           and ?l3.0 = "''yes''" and rest = "[''r'']" and inputs = "[''alien'', ''computer'']"]
      invalid_label_fails_after_die_is_made
        [where ?t1.0 = "''human''" and ?t2.0 = "''alien''" and rng = example_rolls
           and clock = "[0]" and ?l1.0 = "'' Alien ''" and ?l2.0 = "''computer''"
           and ?l3.0 = "''yes''" and rest = "[''r'']" and inputs = "[''alien'', ''computer'']"]
    by simp
qed

subsection \<open>The timed-mode answer\<close>

text \<open>
  C9: after two valid labels, the third answer selects the timed game exactly when it is a
  casing of \<open>yes\<close> between white space, and the untimed game on every other answer.
  Whether the setup fails does not depend on the third answer, and a failure of the setup
  (three answers given, the clock readable) is the \<open>ValueError\<close> of an invalid label.
\<close>

theorem timed_mode_answer:
  "(PigGame_init rng (lower (strip l1)) (lower (strip l2)) = Inr g \<longrightarrow>
      main_setup rng (l1 # l2 # a # rest) (c0 # cs) =
        (if answer_is ''yes'' a
         then Inr (TimedGameProxy \<lparr>game = g, start_time = c0\<rparr>, rest, cs)
         else Inr (PigGame g, rest, c0 # cs)))
   \<and> (isl (main_setup rng (l1 # l2 # a # rest) (c0 # cs))
        \<longleftrightarrow> isl (main_setup rng (l1 # l2 # a' # rest) (c0 # cs)))
   \<and> (main_setup rng (l1 # l2 # a # rest) (c0 # cs) = Inl e \<longrightarrow>
        e = ValueError \<and> (\<not> valid_label (strip l1) \<or> \<not> valid_label (strip l2)))"
proof -
  note yes = lower_strip_eq[OF lower_word_labels(3), simplified]
  let ?i = "PigGame_init rng (lower (strip l1)) (lower (strip l2))"
  have isl: "isl (main_setup rng (l1 # l2 # x # rest) (c0 # cs)) \<longleftrightarrow> isl ?i" for x
    by (cases ?i) (simp_all add: main_setup_def TimedGameProxy_init_def Let_def)
  have err: "main_setup rng (l1 # l2 # a # rest) (c0 # cs) = Inl e \<Longrightarrow> ?i = Inl e"
    by (cases ?i) (simp_all add: main_setup_def TimedGameProxy_init_def Let_def split: if_splits)
  have "main_setup rng (l1 # l2 # a # rest) (c0 # cs) = Inl e \<longrightarrow>
        e = ValueError \<and> (\<not> valid_label (strip l1) \<or> \<not> valid_label (strip l2))"
  proof
    assume "main_setup rng (l1 # l2 # a # rest) (c0 # cs) = Inl e"
    from err[OF this] have i: "?i = Inl e" .
    then have "isl ?i" by simp
    then have v: "\<not> valid_label (strip l1) \<or> \<not> valid_label (strip l2)"
      by (simp add: PigGame_init_isl)
    then have "?i = Inl ValueError" by (intro PigGame_init_invalid) simp
    with i v show "e = ValueError \<and> (\<not> valid_label (strip l1) \<or> \<not> valid_label (strip l2))"
      by simp
  qed
  moreover have "?i = Inr g \<longrightarrow>
      main_setup rng (l1 # l2 # a # rest) (c0 # cs) =
        (if answer_is ''yes'' a
         then Inr (TimedGameProxy \<lparr>game = g, start_time = c0\<rparr>, rest, cs)
         else Inr (PigGame g, rest, c0 # cs))"
    by (simp add: main_setup_def TimedGameProxy_init_def Let_def yes)
  ultimately show ?thesis using isl[of a] isl[of a'] by simp
qed

theorem timed_mode_answer_witness:
  "PigGame_init (\<lambda>s. [3, 4]) (lower (strip ''computer'')) (lower (strip '' Human''))
     = Inr \<lparr>die = [3, 4],
            players = [\<lparr>name = ''Player 1'', score = 0, kind = ComputerPlayer\<rparr>,
                       \<lparr>name = ''Player 2'', score = 0, kind = HumanPlayer\<rparr>],
            current_player = 0\<rparr>
   \<and> answer_is ''yes'' '' YES ''
   \<and> main_setup (\<lambda>s. [3, 4]) [''computer'', '' Human'', '' YES '', ''r''] [7, 8]
       = Inr (TimedGameProxy
                \<lparr>game = \<lparr>die = [3, 4],
                          players = [\<lparr>name = ''Player 1'', score = 0, kind = ComputerPlayer\<rparr>,
                                     \<lparr>name = ''Player 2'', score = 0, kind = HumanPlayer\<rparr>],
                          current_player = 0\<rparr>,
                 start_time = 7\<rparr>, [''r''], [8])
   \<and> \<not> answer_is ''yes'' ''yes!''
   \<and> main_setup (\<lambda>s. [3, 4]) [''computer'', '' Human'', ''yes!'', ''r''] [7, 8]
       = Inr (PigGame
                \<lparr>die = [3, 4],
                 players = [\<lparr>name = ''Player 1'', score = 0, kind = ComputerPlayer\<rparr>,
                            \<lparr>name = ''Player 2'', score = 0, kind = HumanPlayer\<rparr>],
                 current_player = 0\<rparr>, [''r''], [7, 8])"
proof -
  have i: "PigGame_init (\<lambda>s. [3, 4]) (lower (strip ''computer'')) (lower (strip '' Human''))
     = Inr \<lparr>die = [3, 4],
            players = [\<lparr>name = ''Player 1'', score = 0, kind = ComputerPlayer\<rparr>,
                       \<lparr>name = ''Player 2'', score = 0, kind = HumanPlayer\<rparr>],
            current_player = 0\<rparr>"
    by code_simp
  have y: "answer_is ''yes'' '' YES ''"
    by (simp add: answer_is_def casing_of_def same_letter_def isspace_def)
  have n: "\<not> answer_is ''yes'' ''yes!''"
    by (simp add: answer_is_def casing_of_def same_letter_def isspace_def)
  show ?thesis
    using i y n
      timed_mode_answer
        [where rng = "\<lambda>s. [3, 4]" and ?l1.0 = "''computer''" and ?l2.0 = "'' Human''"
           and a = "'' YES ''" and rest = "[''r'']" and ?c0.0 = 7 and cs = "[8]"
           and g = "\<lparr>die = [3, 4],
                 players = [\<lparr>name = ''Player 1'', score = 0, kind = ComputerPlayer\<rparr>,
                            \<lparr>name = ''Player 2'', score = 0, kind = HumanPlayer\<rparr>],
                 current_player = 0\<rparr>"]
      timed_mode_answer
        [where rng = "\<lambda>s. [3, 4]" and ?l1.0 = "''computer''" and ?l2.0 = "'' Human''"
           and a = "''yes!''" and rest = "[''r'']" and ?c0.0 = 7 and cs = "[8]"
           and g = "\<lparr>die = [3, 4],
                 players = [\<lparr>name = ''Player 1'', score = 0, kind = ComputerPlayer\<rparr>,
                            \<lparr>name = ''Player 2'', score = 0, kind = HumanPlayer\<rparr>],
                 current_player = 0\<rparr>"]
    by simp
qed

subsection \<open>Games between computers\<close>

text \<open>
  C10, as it stands, fails for timed games: two timed games between computer players,
  with the same labels and the same random module, differ when the clock differs. With
  the clock standing still the first player wins with 102; with 61 seconds gone at the
  first check the game is a tie at 0 to 0.
\<close>

theorem computer_games_repeat_counterexample:
  "snd (main sixes [''computer'', ''computer'', ''yes''] (replicate 47 0))
     = Inr (Wins ''Player 1'' 102)
   \<and> snd (main sixes [''computer'', ''computer'', ''yes''] [0, 61]) = Inr Tie"
  by code_simp

text \<open>
  C10, amended: every game that \<open>PigGame_init\<close>, and so \<open>main_setup\<close>, builds has the
  die seeded with 0, whatever the arguments are. Two untimed games between computer
  players, with any casing of the labels, any input lines, and random modules that agree
  on the seed 0, start from the same game and pass through the same win checks (each
  holds the rolls left and the scores) to the same result: the same winner and final
  game, or the same failure. For a timed game: its win checks are the first win checks of
  the untimed game, whatever the clock shows; when the untimed game returns and the clock
  has enough readings below 60 seconds (two for each turn and one for each roll are
  enough), the timed game returns the same win checks, winner and final game; and when
  the clock reaches 60 seconds at a reading \<open>t\<close>, a game between computer players either
  is cut off at \<open>t\<close>, with \<open>determine_winner\<close> on the players of its last win check, or
  has been won before, and then it is the untimed game.
\<close>

theorem untimed_computer_games_repeat:
  "(PigGame_init rng t1 t2 = Inr g0 \<longrightarrow> die g0 = Die_init rng 0)
   \<and> (main_setup rng inputs clock = Inr (PigGame g0, rest, clock') \<longrightarrow> die g0 = Die_init rng 0)
   \<and> (main_setup rng inputs clock = Inr (TimedGameProxy tg, rest, clock') \<longrightarrow>
        die (game tg) = Die_init rng 0)
   \<and> (casing_of ''computer'' t1 \<and> casing_of ''computer'' t2
        \<and> casing_of ''computer'' t1' \<and> casing_of ''computer'' t2' \<and> rng 0 = rng' 0 \<longrightarrow>
        (\<exists>g. PigGame_init rng t1 t2 = Inr g \<and> PigGame_init rng' t1' t2' = Inr g
           \<and> fst (play g inputs) = fst (play g inputs')
           \<and> drop_inputs (snd (play g inputs)) = drop_inputs (snd (play g inputs'))))
   \<and> (wf_game g \<and> (\<forall>t \<in> set clock. t - st < 60)
        \<and> TimedGameProxy_play \<lparr>game = g, start_time = st\<rparr> inputs clock
            = (h, Inr (w, tg', rest, clock')) \<longrightarrow>
        play g inputs = (h, Inr (w, game tg', rest)))
   \<and> (wf_game g \<longrightarrow>
        (\<exists>h'. fst (play g inputs)
               = fst (TimedGameProxy_play \<lparr>game = g, start_time = st\<rparr> inputs clock) @ h'))
   \<and> (wf_game g \<and> play g inputs = (h, Inr (w, g', rest))
        \<and> (\<forall>x \<in> set pre. x - st < 60) \<and> 2 * length h + length (die g) \<le> length pre \<longrightarrow>
        (\<exists>c'. TimedGameProxy_play \<lparr>game = g, start_time = st\<rparr> inputs (pre @ post)
               = (h, Inr (w, \<lparr>game = g', start_time = st\<rparr>, rest, c'))))
   \<and> (wf_game g \<and> all_computer g \<and> (\<forall>x \<in> set pre. x - st < 60) \<and> 60 \<le> t - st
        \<and> length pre \<le> length (die g)
        \<and> TimedGameProxy_play \<lparr>game = g, start_time = st\<rparr> inputs (pre @ t # post)
            = (h, res) \<longrightarrow>
        (\<exists>w tg' i'. res = Inr (w, tg', i', post) \<and> determine_winner (game tg') = Inr w
            \<and> (\<forall>n s. w \<noteq> Wins n s)
            \<and> players (game tg') = (if h = [] then players g else players (snd (last h))))
        \<or> (\<exists>n s tg' i' c'. res = Inr (Wins n s, tg', i', c') \<and> 100 \<le> s
              \<and> length post < length c'
              \<and> play g inputs = (h, Inr (Wins n s, game tg', i'))))"
proof (intro conjI impI)
  assume "wf_game g \<and> (\<forall>t \<in> set clock. t - st < 60)
        \<and> TimedGameProxy_play \<lparr>game = g, start_time = st\<rparr> inputs clock
            = (h, Inr (w, tg', rest, clock'))"
  then show "play g inputs = (h, Inr (w, game tg', rest))"
    using timed_play_uncut[of "\<lparr>game = g, start_time = st\<rparr>" clock inputs h w tg' rest clock']
    by simp
next
  assume "wf_game g"
  then show "\<exists>h'. fst (play g inputs)
               = fst (TimedGameProxy_play \<lparr>game = g, start_time = st\<rparr> inputs clock) @ h'"
    using timed_play_prefix[of "\<lparr>game = g, start_time = st\<rparr>" inputs clock] by simp
next
  assume "wf_game g \<and> play g inputs = (h, Inr (w, g', rest))
        \<and> (\<forall>x \<in> set pre. x - st < 60) \<and> 2 * length h + length (die g) \<le> length pre"
  then show "\<exists>c'. TimedGameProxy_play \<lparr>game = g, start_time = st\<rparr> inputs (pre @ post)
               = (h, Inr (w, \<lparr>game = g', start_time = st\<rparr>, rest, c'))"
    using play_to_timed[of g inputs h w g' rest pre st post] by simp
next
  assume a: "wf_game g \<and> all_computer g \<and> (\<forall>x \<in> set pre. x - st < 60) \<and> 60 \<le> t - st
        \<and> length pre \<le> length (die g)
        \<and> TimedGameProxy_play \<lparr>game = g, start_time = st\<rparr> inputs (pre @ t # post)
            = (h, res)"
  let ?tg = "\<lparr>game = g, start_time = st\<rparr>"
  from a have wf: "wf_game (game ?tg)" by simp
  from a have run: "TimedGameProxy_play ?tg inputs (pre @ t # post) = (h, res)" by simp
  from a timed_play_deadline[of ?tg pre t inputs post h res]
  consider (cut) w tg' i' where "res = Inr (w, tg', i', post)"
      "determine_winner (game tg') = Inr w" "\<forall>n s. w \<noteq> Wins n s"
      "players (game tg') = (if h = [] then players g else players (snd (last h)))"
    | (win) n s tg' i' c' where "res = Inr (Wins n s, tg', i', c')" "100 \<le> s"
      "length post < length c'"
    by auto
  then show "(\<exists>w tg' i'. res = Inr (w, tg', i', post) \<and> determine_winner (game tg') = Inr w
            \<and> (\<forall>n s. w \<noteq> Wins n s)
            \<and> players (game tg') = (if h = [] then players g else players (snd (last h))))
        \<or> (\<exists>n s tg' i' c'. res = Inr (Wins n s, tg', i', c') \<and> 100 \<le> s
              \<and> length post < length c'
              \<and> play g inputs = (h, Inr (Wins n s, game tg', i')))"
  proof cases
    case cut
    then show ?thesis by blast
  next
    case win
    from timed_play_win[OF wf run[unfolded win(1)]]
    have "play g inputs = (h, Inr (Wins n s, game tg', i'))" by simp
    with win show ?thesis by blast
  qed
next
  assume "PigGame_init rng t1 t2 = Inr g0"
  from PigGame_init_fields[OF this] show "die g0 = Die_init rng 0"
    by (auto simp: Die_init_def)
next
  assume "main_setup rng inputs clock = Inr (PigGame g0, rest, clock')"
  then obtain a b where "PigGame_init rng a b = Inr g0"
    by (auto simp: main_setup_def TimedGameProxy_init_def Let_def
          split: list.splits if_splits sum.splits)
  from PigGame_init_fields[OF this] show "die g0 = Die_init rng 0"
    by (auto simp: Die_init_def)
next
  assume "main_setup rng inputs clock = Inr (TimedGameProxy tg, rest, clock')"
  then obtain a b where "PigGame_init rng a b = Inr (game tg)"
    by (auto simp: main_setup_def TimedGameProxy_init_def Let_def
          split: list.splits if_splits sum.splits)
  from PigGame_init_fields[OF this] show "die (game tg) = Die_init rng 0"
    by (auto simp: Die_init_def)
next
  assume a: "casing_of ''computer'' t1 \<and> casing_of ''computer'' t2
        \<and> casing_of ''computer'' t1' \<and> casing_of ''computer'' t2' \<and> rng 0 = rng' 0"
  let ?g = "\<lparr>die = rng 0,
          players = [\<lparr>name = ''Player 1'', score = 0, kind = ComputerPlayer\<rparr>,
                     \<lparr>name = ''Player 2'', score = 0, kind = ComputerPlayer\<rparr>],
          current_player = 0\<rparr>"
  from a have 1: "PigGame_init rng t1 t2 = Inr ?g" by (simp add: PigGame_init_computer)
  from a have 2: "PigGame_init rng' t1' t2' = Inr ?g" by (simp add: PigGame_init_computer)
  have "wf_game ?g" "all_computer ?g" by (simp_all add: wf_game_def all_computer_def)
  from play_computer[OF this, of inputs inputs'] 1 2
  show "\<exists>g. PigGame_init rng t1 t2 = Inr g \<and> PigGame_init rng' t1' t2' = Inr g
           \<and> fst (play g inputs) = fst (play g inputs')
           \<and> drop_inputs (snd (play g inputs)) = drop_inputs (snd (play g inputs'))"
    by blast
qed

theorem untimed_computer_games_repeat_witness:
  "casing_of ''computer'' ''computer'' \<and> casing_of ''computer'' ''COMPUTER''
   \<and> sixes 0 = replicate 32 6
   \<and> fst (play \<lparr>die = replicate 32 6,
      players = [\<lparr>name = ''Player 1'', score = 0, kind = ComputerPlayer\<rparr>,
                 \<lparr>name = ''Player 2'', score = 0, kind = ComputerPlayer\<rparr>],
      current_player = 0\<rparr> [''r'', ''h'']) = fst (play \<lparr>die = replicate 32 6,
      players = [\<lparr>name = ''Player 1'', score = 0, kind = ComputerPlayer\<rparr>,
                 \<lparr>name = ''Player 2'', score = 0, kind = ComputerPlayer\<rparr>],
      current_player = 0\<rparr> [])
   \<and> wf_game \<lparr>die = [1, 6],
      players = [\<lparr>name = ''Player 1'', score = 95, kind = ComputerPlayer\<rparr>,
                 \<lparr>name = ''Player 2'', score = 95, kind = ComputerPlayer\<rparr>],
      current_player = 0\<rparr>
   \<and> all_computer \<lparr>die = [1, 6],
      players = [\<lparr>name = ''Player 1'', score = 95, kind = ComputerPlayer\<rparr>,
                 \<lparr>name = ''Player 2'', score = 95, kind = ComputerPlayer\<rparr>],
      current_player = 0\<rparr>
   \<and> play \<lparr>die = [1, 6],
      players = [\<lparr>name = ''Player 1'', score = 95, kind = ComputerPlayer\<rparr>,
                 \<lparr>name = ''Player 2'', score = 95, kind = ComputerPlayer\<rparr>],
      current_player = 0\<rparr> [] = ([(Busted, \<lparr>die = [6],
      players = [\<lparr>name = ''Player 1'', score = 95, kind = ComputerPlayer\<rparr>,
                 \<lparr>name = ''Player 2'', score = 95, kind = ComputerPlayer\<rparr>],
      current_player = 0\<rparr>), (Held, \<lparr>die = [],
      players = [\<lparr>name = ''Player 1'', score = 95, kind = ComputerPlayer\<rparr>,
                 \<lparr>name = ''Player 2'', score = 101, kind = ComputerPlayer\<rparr>],
      current_player = 1\<rparr>)], Inr (Wins ''Player 2'' 101, \<lparr>die = [],
      players = [\<lparr>name = ''Player 1'', score = 95, kind = ComputerPlayer\<rparr>,
                 \<lparr>name = ''Player 2'', score = 101, kind = ComputerPlayer\<rparr>],
      current_player = 1\<rparr>, []))
   \<and> (6::real) - 0 < 60
   \<and> TimedGameProxy_play \<lparr>game = \<lparr>die = [1, 6],
      players = [\<lparr>name = ''Player 1'', score = 95, kind = ComputerPlayer\<rparr>,
                 \<lparr>name = ''Player 2'', score = 95, kind = ComputerPlayer\<rparr>],
      current_player = 0\<rparr>, start_time = 0\<rparr> [] [1, 2, 3, 4, 5, 6]
       = ([(Busted, \<lparr>die = [6],
      players = [\<lparr>name = ''Player 1'', score = 95, kind = ComputerPlayer\<rparr>,
                 \<lparr>name = ''Player 2'', score = 95, kind = ComputerPlayer\<rparr>],
      current_player = 0\<rparr>), (Held, \<lparr>die = [],
      players = [\<lparr>name = ''Player 1'', score = 95, kind = ComputerPlayer\<rparr>,
                 \<lparr>name = ''Player 2'', score = 101, kind = ComputerPlayer\<rparr>],
      current_player = 1\<rparr>)], Inr (Wins ''Player 2'' 101, \<lparr>game = \<lparr>die = [],
      players = [\<lparr>name = ''Player 1'', score = 95, kind = ComputerPlayer\<rparr>,
                 \<lparr>name = ''Player 2'', score = 101, kind = ComputerPlayer\<rparr>],
      current_player = 1\<rparr>, start_time = 0\<rparr>, [], [6]))
   \<and> (2::real) - 0 < 60 \<and> (60::real) \<le> 70 - 0
   \<and> TimedGameProxy_play \<lparr>game = \<lparr>die = [1, 6],
      players = [\<lparr>name = ''Player 1'', score = 95, kind = ComputerPlayer\<rparr>,
                 \<lparr>name = ''Player 2'', score = 95, kind = ComputerPlayer\<rparr>],
      current_player = 0\<rparr>, start_time = 0\<rparr> [] ([1, 2] @ 70 # [80])
       = ([(Busted, \<lparr>die = [6],
      players = [\<lparr>name = ''Player 1'', score = 95, kind = ComputerPlayer\<rparr>,
                 \<lparr>name = ''Player 2'', score = 95, kind = ComputerPlayer\<rparr>],
      current_player = 0\<rparr>)], Inr (Tie, \<lparr>game = \<lparr>die = [6],
      players = [\<lparr>name = ''Player 1'', score = 95, kind = ComputerPlayer\<rparr>,
                 \<lparr>name = ''Player 2'', score = 95, kind = ComputerPlayer\<rparr>],
      current_player = 1\<rparr>, start_time = 0\<rparr>, [], [80]))
   \<and> determine_winner \<lparr>die = [6],
      players = [\<lparr>name = ''Player 1'', score = 95, kind = ComputerPlayer\<rparr>,
                 \<lparr>name = ''Player 2'', score = 95, kind = ComputerPlayer\<rparr>],
      current_player = 1\<rparr> = Inr Tie"
proof -
  have c: "casing_of ''computer'' ''computer''" "casing_of ''computer'' ''COMPUTER''"
    by (simp_all add: casing_of_def same_letter_def)
  have s: "sixes 0 = (\<lambda>s. replicate 32 6) 0" by (simp add: sixes_def)
  have i: "PigGame_init sixes ''computer'' ''COMPUTER'' = Inr \<lparr>die = replicate 32 6,
      players = [\<lparr>name = ''Player 1'', score = 0, kind = ComputerPlayer\<rparr>,
                 \<lparr>name = ''Player 2'', score = 0, kind = ComputerPlayer\<rparr>],
      current_player = 0\<rparr>"
    by (simp add: PigGame_init_computer c sixes_def)
  have u: "play \<lparr>die = [1, 6],
      players = [\<lparr>name = ''Player 1'', score = 95, kind = ComputerPlayer\<rparr>,
                 \<lparr>name = ''Player 2'', score = 95, kind = ComputerPlayer\<rparr>],
      current_player = 0\<rparr> [] = ([(Busted, \<lparr>die = [6],
      players = [\<lparr>name = ''Player 1'', score = 95, kind = ComputerPlayer\<rparr>,
                 \<lparr>name = ''Player 2'', score = 95, kind = ComputerPlayer\<rparr>],
      current_player = 0\<rparr>), (Held, \<lparr>die = [],
      players = [\<lparr>name = ''Player 1'', score = 95, kind = ComputerPlayer\<rparr>,
                 \<lparr>name = ''Player 2'', score = 101, kind = ComputerPlayer\<rparr>],
      current_player = 1\<rparr>)], Inr (Wins ''Player 2'' 101, \<lparr>die = [],
      players = [\<lparr>name = ''Player 1'', score = 95, kind = ComputerPlayer\<rparr>,
                 \<lparr>name = ''Player 2'', score = 101, kind = ComputerPlayer\<rparr>],
      current_player = 1\<rparr>, []))"
    by (simp add: play.simps turn.simps py_index_def decide_def ComputerPlayer_decide_def
          add_score_def switch_turn_def Let_def)
  have t: "TimedGameProxy_play \<lparr>game = \<lparr>die = [1, 6],
      players = [\<lparr>name = ''Player 1'', score = 95, kind = ComputerPlayer\<rparr>,
                 \<lparr>name = ''Player 2'', score = 95, kind = ComputerPlayer\<rparr>],
      current_player = 0\<rparr>, start_time = 0\<rparr> [] [1, 2, 3, 4, 5, 6]
       = ([(Busted, \<lparr>die = [6],
      players = [\<lparr>name = ''Player 1'', score = 95, kind = ComputerPlayer\<rparr>,
                 \<lparr>name = ''Player 2'', score = 95, kind = ComputerPlayer\<rparr>],
      current_player = 0\<rparr>), (Held, \<lparr>die = [],
      players = [\<lparr>name = ''Player 1'', score = 95, kind = ComputerPlayer\<rparr>,
                 \<lparr>name = ''Player 2'', score = 101, kind = ComputerPlayer\<rparr>],
      current_player = 1\<rparr>)], Inr (Wins ''Player 2'' 101, \<lparr>game = \<lparr>die = [],
      players = [\<lparr>name = ''Player 1'', score = 95, kind = ComputerPlayer\<rparr>,
                 \<lparr>name = ''Player 2'', score = 101, kind = ComputerPlayer\<rparr>],
      current_player = 1\<rparr>, start_time = 0\<rparr>, [], [6]))"
    by (simp add: TimedGameProxy_play.simps timed_turn.simps py_index_def decide_def
          ComputerPlayer_decide_def add_score_def switch_turn_def Let_def)
  have k: "TimedGameProxy_play \<lparr>game = \<lparr>die = [1, 6],
      players = [\<lparr>name = ''Player 1'', score = 95, kind = ComputerPlayer\<rparr>,
                 \<lparr>name = ''Player 2'', score = 95, kind = ComputerPlayer\<rparr>],
      current_player = 0\<rparr>, start_time = 0\<rparr> [] [1, 2, 70, 80]
       = ([(Busted, \<lparr>die = [6],
      players = [\<lparr>name = ''Player 1'', score = 95, kind = ComputerPlayer\<rparr>,
                 \<lparr>name = ''Player 2'', score = 95, kind = ComputerPlayer\<rparr>],
      current_player = 0\<rparr>)], Inr (Tie, \<lparr>game = \<lparr>die = [6],
      players = [\<lparr>name = ''Player 1'', score = 95, kind = ComputerPlayer\<rparr>,
                 \<lparr>name = ''Player 2'', score = 95, kind = ComputerPlayer\<rparr>],
      current_player = 1\<rparr>, start_time = 0\<rparr>, [], [80]))"
    by (simp add: TimedGameProxy_play.simps timed_turn.simps py_index_def decide_def
          ComputerPlayer_decide_def add_score_def switch_turn_def determine_winner_def Let_def)
  have a: "wf_game \<lparr>die = [1, 6],
      players = [\<lparr>name = ''Player 1'', score = 95, kind = ComputerPlayer\<rparr>,
                 \<lparr>name = ''Player 2'', score = 95, kind = ComputerPlayer\<rparr>],
      current_player = 0\<rparr>" "all_computer \<lparr>die = [1, 6],
      players = [\<lparr>name = ''Player 1'', score = 95, kind = ComputerPlayer\<rparr>,
                 \<lparr>name = ''Player 2'', score = 95, kind = ComputerPlayer\<rparr>],
      current_player = 0\<rparr>"
    by (simp_all add: wf_game_def all_computer_def)
  show ?thesis
    using c s i u t k a
      untimed_computer_games_repeat
        [where rng = sixes and rng' = "\<lambda>s. replicate 32 6"
           and ?t1.0 = "''computer''" and ?t2.0 = "''COMPUTER''"
           and t1' = "''COMPUTER''" and t2' = "''computer''"
           and inputs = "[''r'', ''h'']" and inputs' = "[]"]
      untimed_computer_games_repeat
        [where rng = sixes and rng' = "\<lambda>s. replicate 32 6"
           and g = "\<lparr>die = [1, 6],
      players = [\<lparr>name = ''Player 1'', score = 95, kind = ComputerPlayer\<rparr>,
                 \<lparr>name = ''Player 2'', score = 95, kind = ComputerPlayer\<rparr>],
      current_player = 0\<rparr>"
           and st = 0 and clock = "[1, 2, 3, 4, 5, 6]" and inputs = "[]"
           and h = "[(Busted, \<lparr>die = [6],
      players = [\<lparr>name = ''Player 1'', score = 95, kind = ComputerPlayer\<rparr>,
                 \<lparr>name = ''Player 2'', score = 95, kind = ComputerPlayer\<rparr>],
      current_player = 0\<rparr>), (Held, \<lparr>die = [],
      players = [\<lparr>name = ''Player 1'', score = 95, kind = ComputerPlayer\<rparr>,
                 \<lparr>name = ''Player 2'', score = 101, kind = ComputerPlayer\<rparr>],
      current_player = 1\<rparr>)]"
           and w = "Wins ''Player 2'' 101"
           and tg' = "\<lparr>game = \<lparr>die = [],
      players = [\<lparr>name = ''Player 1'', score = 95, kind = ComputerPlayer\<rparr>,
                 \<lparr>name = ''Player 2'', score = 101, kind = ComputerPlayer\<rparr>],
      current_player = 1\<rparr>, start_time = 0\<rparr>"
           and g' = "\<lparr>die = [],
      players = [\<lparr>name = ''Player 1'', score = 95, kind = ComputerPlayer\<rparr>,
                 \<lparr>name = ''Player 2'', score = 101, kind = ComputerPlayer\<rparr>],
      current_player = 1\<rparr>"
           and rest = "[]" and clock' = "[6]"
           and pre = "[1, 2, 3, 4, 5, 6]" and post = "[]"]
      untimed_computer_games_repeat
        [where rng = sixes and rng' = "\<lambda>s. replicate 32 6"
           and g = "\<lparr>die = [1, 6],
      players = [\<lparr>name = ''Player 1'', score = 95, kind = ComputerPlayer\<rparr>,
                 \<lparr>name = ''Player 2'', score = 95, kind = ComputerPlayer\<rparr>],
      current_player = 0\<rparr>"
           and st = 0 and inputs = "[]"
           and h = "[(Busted, \<lparr>die = [6],
      players = [\<lparr>name = ''Player 1'', score = 95, kind = ComputerPlayer\<rparr>,
                 \<lparr>name = ''Player 2'', score = 95, kind = ComputerPlayer\<rparr>],
      current_player = 0\<rparr>)]"
           and res = "Inr (Tie, \<lparr>game = \<lparr>die = [6],
      players = [\<lparr>name = ''Player 1'', score = 95, kind = ComputerPlayer\<rparr>,
                 \<lparr>name = ''Player 2'', score = 95, kind = ComputerPlayer\<rparr>],
      current_player = 1\<rparr>, start_time = 0\<rparr>, [], [80])"
           and pre = "[1, 2]" and t = 70 and post = "[80]"]
    by (simp add: determine_winner_def)
qed

end
